theory Spec2Isabelle
  imports Main "HOL-Library.List_Lexorder" "HOL-Library.Sublist" "HOL-Library.Multiset"
begin

section \<open>JavaScript values\<close>

text \<open>
  A JavaScript string is modelled as the list of its code points. Lists are compared
  lexicographically (\<^theory_text>\<open>HOL-Library.List_Lexorder\<close>), which is the order of the
  UTF-8 encodings byte by byte. \<open>js\<close> turns an ASCII literal into such a string.
\<close>

type_synonym jsstring = "nat list"

definition js :: "string \<Rightarrow> jsstring" where
  "js s = map of_char s"

text \<open>
  Values of type \<open>any\<close>. Objects and arrays have identity and may be shared or cyclic, so
  a value of type object is a reference into a heap; the heap holds, for every object, its
  enumerable properties in \<open>for ... in\<close> order (for an array: its indices). Numbers are
  restricted to integers.
\<close>

type_synonym addr = nat

datatype jsval =
    JString jsstring
  | JNumber int
  | JBoolean bool
  | JNull
  | JUndefined
  | JObject addr

type_synonym obj = "(jsstring \<times> jsval) list"

type_synonym heap = "obj list"

definition for_in_keys :: "obj \<Rightarrow> jsstring list" where
  "for_in_keys ob = map fst ob"

definition obj_get :: "obj \<Rightarrow> jsstring \<Rightarrow> jsval" where
  "obj_get ob key = (case map_of ob key of None \<Rightarrow> JUndefined | Some v \<Rightarrow> v)"

text \<open>The built-in \<open>String.prototype.includes\<close>.\<close>

fun str_includes :: "jsstring \<Rightarrow> jsstring \<Rightarrow> bool" where
  "str_includes [] t = (t = [])"
| "str_includes (c # cs) t = (prefix t (c # cs) \<or> str_includes cs t)"

section \<open>The engine\<close>

text \<open>
  Two built-ins that \<open>search\<close> calls are the engine's and not part of the sources:
  \<open>String.prototype.toLowerCase\<close>, which follows the Unicode case tables, and
  \<open>Array.prototype.sort\<close>, whose algorithm is the engine's choice. Both are parameters of
  the model: every function that calls one of them takes the engine \<open>E\<close>.
\<close>

type_synonym entry = "jsstring \<times> jsval"

record engine =
  toLowerCase :: "jsstring \<Rightarrow> jsstring"
  array_sort :: "(entry \<Rightarrow> entry \<Rightarrow> int) \<Rightarrow> entry list \<Rightarrow> entry list"

section \<open>deepSearchHelper\<close>

text \<open>
  \<open>deepSearchHelper(obj, text, visited)\<close>, lines 73-91. The \<open>WeakSet\<close> is mutated by
  the calls, so the model returns it with the result. \<open>deepSearchLoop\<close> is the
  \<open>for (const key in obj)\<close> loop over the keys still to come. A reference outside the
  heap (none exists in JavaScript) is read as an object with no enumerable property.
\<close>

function deepSearchHelper :: "engine \<Rightarrow> heap \<Rightarrow> jsval \<Rightarrow> jsstring \<Rightarrow> addr set \<Rightarrow> bool \<times> addr set"
  and deepSearchLoop :: "engine \<Rightarrow> heap \<Rightarrow> obj \<Rightarrow> jsstring list \<Rightarrow> jsstring \<Rightarrow> addr set \<Rightarrow> bool \<times> addr set"
where
  "deepSearchHelper E h (JString s) text visited = (str_includes (toLowerCase E s) text, visited)"
| "deepSearchHelper E h (JObject a) text visited =
     (if a \<in> visited then (False, visited)
      else if a < length h
        then deepSearchLoop E h (h ! a) (for_in_keys (h ! a)) text (insert a visited)
        else (False, insert a visited))"
| "deepSearchHelper E h (JNumber n) text visited = (False, visited)"
| "deepSearchHelper E h (JBoolean b) text visited = (False, visited)"
| "deepSearchHelper E h JNull text visited = (False, visited)"
| "deepSearchHelper E h JUndefined text visited = (False, visited)"
| "deepSearchLoop E h ob [] text visited = (False, visited)"
| "deepSearchLoop E h ob (key # keys) text visited =
     (let r = deepSearchHelper E h (obj_get ob key) text visited
      in if fst r then (True, snd r) else deepSearchLoop E h ob keys text (snd r))"
  by pat_completeness auto

text \<open>
  The top-level call \<open>deepSearchHelper(value, searchText)\<close> of line 49: the default
  parameter makes a new, empty \<open>WeakSet\<close> for every record.
\<close>

definition deepSearchPred :: "engine \<Rightarrow> heap \<Rightarrow> jsval \<Rightarrow> jsstring \<Rightarrow> bool" where
  "deepSearchPred E h v text = fst (deepSearchHelper E h v text {})"

text \<open>The number of heap objects not yet in the visited set.\<close>

definition unvisited :: "heap \<Rightarrow> addr set \<Rightarrow> nat" where
  "unvisited h vis = card ({..<length h} - vis)"

text \<open>
  What a search term can reach: \<open>member h v w\<close> when \<open>w\<close> is the value of an enumerable
  property of the object \<open>v\<close>; \<open>reachable h v w\<close> is its reflexive transitive closure.
\<close>

definition member_of :: "heap \<Rightarrow> jsval \<Rightarrow> jsval \<Rightarrow> bool" where
  "member_of h v w =
     (case v of
        JObject a \<Rightarrow> a < length h \<and> w \<in> set (map (obj_get (h ! a)) (for_in_keys (h ! a)))
      | _ \<Rightarrow> False)"

inductive reachable :: "heap \<Rightarrow> jsval \<Rightarrow> jsval \<Rightarrow> bool" for h :: heap and v :: jsval where
  reachable_self: "reachable h v v"
| reachable_member: "reachable h v u \<Longrightarrow> member_of h u w \<Longrightarrow> reachable h v w"

section \<open>The store\<close>

text \<open>
  The range options handed to \<open>db.getRange\<close>: \<open>start\<close>, \<open>end\<close> (here \<open>end_key\<close>) and
  whatever the caller passed in \<open>rangeOptions\<close>, which \<open>search\<close> forwards untouched.
  A database is what \<open>search\<close> uses of it: its \<open>getRange\<close> method.
\<close>

record 'r RangeOptions =
  start :: jsstring
  end_key :: "jsstring option"
  passthrough :: "'r option"

record 'r Database =
  getRange :: "'r RangeOptions \<Rightarrow> entry list"

text \<open>
  Modelled from the spec: the embedded ordered key-value store is an external dependency,
  not part of the sources. Following sections 3 and 6 of the specification, a collection
  is an ordered mapping from keys to values, keys are compared lexicographically, and
  range iteration yields, in ascending key order, the pairs whose key lies in
  \<open>[start, end)\<close>; \<open>end\<close> absent means no upper bound. The collection is given by its
  entries in ascending key order (\<open>collection_ok\<close>). The pass-through options (reverse,
  offset, snapshot, transaction) are not modelled: their type is \<open>unit\<close>.
\<close>

definition in_range :: "'r RangeOptions \<Rightarrow> jsstring \<Rightarrow> bool" where
  "in_range ro k = (start ro \<le> k \<and> (case end_key ro of None \<Rightarrow> True | Some e \<Rightarrow> k < e))"

definition collection :: "entry list \<Rightarrow> unit Database" where
  "collection entries = \<lparr> getRange = (\<lambda>ro. filter (\<lambda>(k, v). in_range ro k) entries) \<rparr>"

definition collection_ok :: "entry list \<Rightarrow> bool" where
  "collection_ok entries = sorted_wrt (<) (map fst entries)"

section \<open>search\<close>

text \<open>
  A filter or a comparator is caller code. A filter may throw, and what it throws leaves
  \<open>search\<close> uncaught: a filter returns \<open>Inl\<close> of the thrown value or \<open>Inr\<close> of its
  boolean. Comparators are total functions into the integers.
\<close>

datatype error = Thrown jsval

type_synonym filter_fn = "jsval \<Rightarrow> jsstring \<Rightarrow> error + bool"

type_synonym comparator = "jsval \<Rightarrow> jsval \<Rightarrow> int"

record 'r SearchOptions =
  prefix_opt :: "jsstring option"
  limit :: "int option"
  sort_opt :: "comparator option"
  filters :: "filter_fn list option"
  deepSearch :: "jsstring option"
  query :: "jsstring option"
  rangeOptions :: "'r option"

text \<open>The default \<open>options = {}\<close>: every field absent.\<close>

definition no_options :: "'r SearchOptions" where
  "no_options = \<lparr> prefix_opt = None, limit = None, sort_opt = None, filters = None,
     deepSearch = None, query = None, rangeOptions = None \<rparr>"

text \<open>\<open>options.limit ?? Infinity\<close>, and the test \<open>results.length >= limit\<close>.\<close>

datatype number = Finite int | Infinity

fun length_ge :: "nat \<Rightarrow> number \<Rightarrow> bool" where
  "length_ge n Infinity = False"
| "length_ge n (Finite l) = (l \<le> int n)"

text \<open>
  The built-in \<open>Array.prototype.every\<close>: the predicates are called in order, and the first
  one that returns false (or throws) ends the evaluation.
\<close>

fun every :: "filter_fn list \<Rightarrow> jsval \<Rightarrow> jsstring \<Rightarrow> error + bool" where
  "every [] v k = Inr True"
| "every (f # fs) v k =
     (case f v k of
        Inl e \<Rightarrow> Inl e
      | Inr b \<Rightarrow> if b then every fs v k else Inr False)"

text \<open>Lines 31-40: \<open>start\<close>, \<open>end\<close> and the range options.\<close>

definition range_start :: "'r SearchOptions \<Rightarrow> jsstring" where
  "range_start options = (case prefix_opt options of None \<Rightarrow> [] | Some p \<Rightarrow> p)"

definition range_end :: "'r SearchOptions \<Rightarrow> jsstring option" where
  "range_end options =
     (if range_start options \<noteq> [] then Some (range_start options @ [0xFFFF]) else None)"

definition rangeOpts :: "'r SearchOptions \<Rightarrow> 'r RangeOptions" where
  "rangeOpts options =
     \<lparr> start = range_start options, end_key = range_end options,
       passthrough = rangeOptions options \<rparr>"

text \<open>
  Lines 46-50: \<open>(options.deepSearch || options.query)?.toLowerCase()\<close>. The operator
  \<open>||\<close> yields its left operand when that is truthy (a non-empty string) and its right
  operand otherwise; an empty \<open>searchText\<close> is falsy and appends no filter.
\<close>

definition searchText :: "engine \<Rightarrow> 'r SearchOptions \<Rightarrow> jsstring option" where
  "searchText E options =
     map_option (toLowerCase E)
       (case deepSearch options of
          None \<Rightarrow> query options
        | Some d \<Rightarrow> if d \<noteq> [] then Some d else query options)"

definition allFilters :: "engine \<Rightarrow> heap \<Rightarrow> 'r SearchOptions \<Rightarrow> filter_fn list" where
  "allFilters E h options =
     (case filters options of None \<Rightarrow> [] | Some fs \<Rightarrow> fs) @
     (case searchText E options of
        None \<Rightarrow> []
      | Some t \<Rightarrow> if t \<noteq> [] then [\<lambda>v k. Inr (deepSearchPred E h v t)] else [])"

text \<open>
  Lines 53-59, the \<open>for ... of\<close> loop over the lazy range. Its state is the accumulator
  \<open>results\<close> and the part of the iterable not pulled yet, which the model returns too:
  after a \<open>break\<close> it is what the loop never looked at.
\<close>

fun search_loop :: "filter_fn list \<Rightarrow> number \<Rightarrow> entry list \<Rightarrow> entry list \<Rightarrow>
    error + (entry list \<times> entry list)" where
  "search_loop fs lim [] results = Inr (results, [])"
| "search_loop fs lim ((key, v) # iterable) results =
     (case (if 0 < length fs then every fs v key else Inr True) of
        Inl e \<Rightarrow> Inl e
      | Inr pass \<Rightarrow>
          if \<not> pass then search_loop fs lim iterable results
          else if length_ge (length (results @ [(key, v)])) lim
               then Inr (results @ [(key, v)], iterable)
               else search_loop fs lim iterable (results @ [(key, v)]))"

text \<open>
  \<open>search(db, options)\<close>, lines 27-67. The heap holds the objects of the values; the
  engine supplies \<open>toLowerCase\<close> and \<open>sort\<close>.
\<close>

definition search :: "engine \<Rightarrow> heap \<Rightarrow> 'r Database \<Rightarrow> 'r SearchOptions \<Rightarrow> error + entry list" where
  "search E h db options =
     (let lim = (case limit options of None \<Rightarrow> Infinity | Some l \<Rightarrow> Finite l);
          iterable = getRange db (rangeOpts options)
      in case search_loop (allFilters E h options) lim iterable [] of
           Inl e \<Rightarrow> Inl e
         | Inr (results, unread) \<Rightarrow>
             Inr (case sort_opt options of
                    None \<Rightarrow> results
                  | Some cmp \<Rightarrow> array_sort E (\<lambda>a b. cmp (snd a) (snd b)) results))"

text \<open>
  For stating results: an entry matches when every filter returns true on it, and the
  filters return on a list of entries when none of them throws before the verdict.
\<close>

definition matches :: "filter_fn list \<Rightarrow> entry \<Rightarrow> bool" where
  "matches fs e = (every fs (snd e) (fst e) = Inr True)"

definition filters_return :: "filter_fn list \<Rightarrow> entry list \<Rightarrow> bool" where
  "filters_return fs xs = list_all (\<lambda>e. case every fs (snd e) (fst e) of Inl x \<Rightarrow> False | Inr b \<Rightarrow> True) xs"

text \<open>
  How many entries the loop still appends when the accumulator holds \<open>a\<close> entries and the
  limit is \<open>l\<close>: the test follows the push, so at least one.
\<close>

definition quota :: "int \<Rightarrow> nat \<Rightarrow> nat" where
  "quota l a = max 1 (nat (l - int a))"

text \<open>
  What the limit and the comparator do to the list of matching entries of the range.
\<close>

definition apply_limit :: "int option \<Rightarrow> entry list \<Rightarrow> entry list" where
  "apply_limit l xs = (case l of None \<Rightarrow> xs | Some n \<Rightarrow> take (quota n 0) xs)"

definition apply_sort :: "engine \<Rightarrow> comparator option \<Rightarrow> entry list \<Rightarrow> entry list" where
  "apply_sort E c xs =
     (case c of None \<Rightarrow> xs | Some cmp \<Rightarrow> array_sort E (\<lambda>a b. cmp (snd a) (snd b)) xs)"

text \<open>
  For the correctness of the deep search: a value is a hit when it is a string whose
  lower-cased form includes the term; it is settled for a visited set when it is no hit
  and, if an object, visited; a visited set is explored, up to the objects \<open>T\<close> whose
  loops are still running, when every member of its other objects is settled.
\<close>

definition hit :: "engine \<Rightarrow> jsstring \<Rightarrow> jsval \<Rightarrow> bool" where
  "hit E t w = (case w of JString s \<Rightarrow> str_includes (toLowerCase E s) t | _ \<Rightarrow> False)"

definition settled :: "engine \<Rightarrow> jsstring \<Rightarrow> addr set \<Rightarrow> jsval \<Rightarrow> bool" where
  "settled E t S w = (case w of JString s \<Rightarrow> \<not> str_includes (toLowerCase E s) t | JObject a \<Rightarrow> a \<in> S | _ \<Rightarrow> True)"

definition explored :: "engine \<Rightarrow> heap \<Rightarrow> jsstring \<Rightarrow> addr set \<Rightarrow> addr set \<Rightarrow> bool" where
  "explored E h t S T = (\<forall>a w. a \<in> S \<and> a \<notin> T \<and> member_of h (JObject a) w \<longrightarrow> settled E t S w)"

text \<open>
  Caller code of the examples: \<open>v.key\<close> read as a number (0 when it is none).
\<close>

definition number_of :: "heap \<Rightarrow> jsstring \<Rightarrow> jsval \<Rightarrow> int" where
  "number_of h key v =
     (case v of
        JObject a \<Rightarrow>
          if a < length h then (case obj_get (h ! a) key of JNumber n \<Rightarrow> n | _ \<Rightarrow> 0) else 0
      | _ \<Rightarrow> 0)"

text \<open>
  What ECMAScript says of the two built-ins, as far as the claims need it.

  A comparator is a consistent comparator for the elements of a list (ECMAScript,
  \<open>Array.prototype.sort\<close>) when \<open>cmp a b = 0\<close> is reflexive, symmetric and transitive on
  them and both \<open>cmp a b < 0\<close> and \<open>cmp a b > 0\<close> are transitive. For such a comparator
  the sorted array is a permutation of the array in which no element stands before one
  that the comparator puts strictly before it; for any comparator it is a permutation.
  \<open>toLowerCase\<close> maps an ASCII string to the string with \<open>A\<close> to \<open>Z\<close> replaced by \<open>a\<close> to
  \<open>z\<close>.
\<close>

definition consistent_triple :: "('a \<Rightarrow> 'a \<Rightarrow> int) \<Rightarrow> 'a \<Rightarrow> 'a \<Rightarrow> 'a \<Rightarrow> bool" where
  "consistent_triple cmp a b c =
     (cmp a a = 0 \<and>
      (cmp a b = 0 \<longrightarrow> cmp b a = 0) \<and>
      (cmp a b = 0 \<and> cmp b c = 0 \<longrightarrow> cmp a c = 0) \<and>
      (cmp a b < 0 \<and> cmp b c < 0 \<longrightarrow> cmp a c < 0) \<and>
      (0 < cmp a b \<and> 0 < cmp b c \<longrightarrow> 0 < cmp a c))"

definition consistent_on :: "('a \<Rightarrow> 'a \<Rightarrow> int) \<Rightarrow> 'a list \<Rightarrow> bool" where
  "consistent_on cmp xs =
     (\<forall>a \<in> set xs. \<forall>b \<in> set xs. \<forall>c \<in> set xs. consistent_triple cmp a b c)"

definition sort_conforms :: "engine \<Rightarrow> bool" where
  "sort_conforms E =
     (\<forall>cmp xs. mset (array_sort E cmp xs) = mset xs \<and>
        (consistent_on cmp xs \<longrightarrow> sorted_wrt (\<lambda>a b. \<not> cmp b a < 0) (array_sort E cmp xs)))"

definition is_ascii :: "jsstring \<Rightarrow> bool" where
  "is_ascii s = list_all (\<lambda>c. c < 128) s"

definition ascii_lower :: "jsstring \<Rightarrow> jsstring" where
  "ascii_lower s = map (\<lambda>c. if 65 \<le> c \<and> c \<le> 90 then c + 32 else c) s"

definition lowers_ascii :: "engine \<Rightarrow> bool" where
  "lowers_ascii E = (\<forall>s. is_ascii s \<longrightarrow> toLowerCase E s = ascii_lower s)"

text \<open>
  Case-insensitive containment of ASCII strings, said without lower-casing: some window
  of \<open>s\<close> has the length of \<open>t\<close> and agrees with it position by position up to the case
  of the letters.
\<close>

definition same_letter :: "nat \<Rightarrow> nat \<Rightarrow> bool" where
  "same_letter a b =
     (a = b \<or> (65 \<le> a \<and> a \<le> 90 \<and> b = a + 32) \<or> (65 \<le> b \<and> b \<le> 90 \<and> a = b + 32))"

fun ci_includes :: "jsstring \<Rightarrow> jsstring \<Rightarrow> bool" where
  "ci_includes [] t = (t = [])"
| "ci_includes (c # cs) t =
     (list_all2 same_letter (take (length t) (c # cs)) t \<or> ci_includes cs t)"

text \<open>
  An engine for the examples: ASCII lower-casing, and a stable insertion sort that, as
  the sorts of the engines do, moves an element only when the comparator is negative on
  the later and the earlier element.
\<close>

fun insert_sorted :: "('a \<Rightarrow> 'a \<Rightarrow> int) \<Rightarrow> 'a \<Rightarrow> 'a list \<Rightarrow> 'a list" where
  "insert_sorted cmp x [] = [x]"
| "insert_sorted cmp x (y # ys) =
     (if cmp y x < 0 then y # insert_sorted cmp x ys else x # y # ys)"

definition insertion_sort :: "('a \<Rightarrow> 'a \<Rightarrow> int) \<Rightarrow> 'a list \<Rightarrow> 'a list" where
  "insertion_sort cmp xs = foldr (insert_sorted cmp) xs []"

definition reference_engine :: engine where
  "reference_engine = \<lparr> toLowerCase = ascii_lower, array_sort = insertion_sort \<rparr>"

section \<open>Termination of the deep search\<close>

lemma deepSearch_visited_mono:
  "deepSearchHelper_deepSearchLoop_dom (Inl (E, h, v, t, vis)) \<Longrightarrow>
     vis \<subseteq> snd (deepSearchHelper E h v t vis)"
  "deepSearchHelper_deepSearchLoop_dom (Inr (E, h, ob, ks, t, vis)) \<Longrightarrow>
     vis \<subseteq> snd (deepSearchLoop E h ob ks t vis)"
proof (induction E h v t vis and E h ob ks t vis rule: deepSearchHelper_deepSearchLoop.pinduct)
  case (2 E h a t visited)
  then show ?case
    by (auto simp: deepSearchHelper.psimps)
next
  case (8 E h ob key keys t visited)
  then show ?case
    by (auto simp: deepSearchLoop.psimps Let_def)
qed (simp_all add: deepSearchHelper.psimps deepSearchLoop.psimps)

lemma unvisited_insert: "a < length h \<Longrightarrow> a \<notin> vis \<Longrightarrow> unvisited h (insert a vis) < unvisited h vis"
  unfolding unvisited_def
  by (intro psubset_card_mono) auto

lemma unvisited_mono: "vis \<subseteq> vis' \<Longrightarrow> unvisited h vis' \<le> unvisited h vis"
  unfolding unvisited_def
  by (intro card_mono) auto

lemma deepSearch_total: "All deepSearchHelper_deepSearchLoop_dom"
proof (relation "inv_image (less_than <*lex*> less_than)
    (\<lambda>x. case x of
       Inl (E, h, v, t, vis) \<Rightarrow> (unvisited h vis, 0)
     | Inr (E, h, ob, ks, t, vis) \<Rightarrow> (unvisited h vis, Suc (length ks)))", goal_cases)
  case 1
  show ?case
    by (intro wf_inv_image wf_lex_prod wf_less_than)
next
  case (2 E h a t visited)
  then show ?case by (simp add: unvisited_insert)
next
  case (3 E h ob key keys t visited)
  then show ?case by simp
next
  case (4 E h ob key keys t visited r)
  then show ?case
    using unvisited_mono [OF deepSearch_visited_mono(1) [of E h "obj_get ob key" t visited], of h]
    by (auto simp: le_less)
qed

termination deepSearchHelper
  by (rule deepSearch_total)

section \<open>The loop of search\<close>

lemma search_loop_Cons:
  "search_loop fs lim ((k, v) # iterable) acc =
     (case every fs v k of
        Inl e \<Rightarrow> Inl e
      | Inr pass \<Rightarrow>
          if \<not> pass then search_loop fs lim iterable acc
          else if length_ge (Suc (length acc)) lim
               then Inr (acc @ [(k, v)], iterable)
               else search_loop fs lim iterable (acc @ [(k, v)]))"
proof (cases "fs = []")
  case True
  then show ?thesis by simp
next
  case False
  then have "0 < length fs" by simp
  then show ?thesis
    by (simp only: search_loop.simps if_True length_append list.size) simp
qed

lemma search_loop_infinity:
  "filters_return fs xs \<Longrightarrow>
     search_loop fs Infinity xs acc = Inr (acc @ filter (matches fs) xs, [])"
proof (induction xs arbitrary: acc)
  case Nil
  then show ?case by simp
next
  case (Cons x xs)
  obtain k v where x: "x = (k, v)" by (cases x)
  from Cons.prems obtain b where b: "every fs v k = Inr b" and rest: "filters_return fs xs"
    by (auto simp: filters_return_def x split: sum.splits)
  show ?case
    using Cons.IH [OF rest] b
    by (simp add: x search_loop_Cons matches_def del: search_loop.simps)
qed

lemma search_loop_finite:
  "filters_return fs xs \<Longrightarrow>
     \<exists>unread. search_loop fs (Finite l) xs acc =
        Inr (acc @ take (quota l (length acc)) (filter (matches fs) xs), unread)"
proof (induction xs arbitrary: acc)
  case Nil
  then show ?case by simp
next
  case (Cons x xs)
  obtain k v where x: "x = (k, v)" by (cases x)
  from Cons.prems obtain b where b: "every fs v k = Inr b" and rest: "filters_return fs xs"
    by (auto simp: filters_return_def x split: sum.splits)
  show ?case
  proof (cases b)
    case False
    then show ?thesis
      using Cons.IH [OF rest, of acc] b by (simp add: x search_loop_Cons matches_def del: search_loop.simps)
  next
    case True
    show ?thesis
    proof (cases "l \<le> int (length acc) + 1")
      case stop: True
      then have "quota l (length acc) = 1" by (simp add: quota_def)
      then show ?thesis
        using b True stop by (simp add: x search_loop_Cons matches_def del: search_loop.simps)
    next
      case go: False
      then have q: "quota l (length acc) = Suc (quota l (Suc (length acc)))"
        by (simp add: quota_def)
      from Cons.IH [OF rest, of "acc @ [(k, v)]"] obtain unread where
        u: "search_loop fs (Finite l) xs (acc @ [(k, v)]) =
              Inr ((acc @ [(k, v)]) @
                take (quota l (Suc (length acc))) (filter (matches fs) xs), unread)"
        by auto
      have step: "search_loop fs (Finite l) (x # xs) acc =
          search_loop fs (Finite l) xs (acc @ [(k, v)])"
        using b True go by (simp add: x search_loop_Cons del: search_loop.simps)
      have "filter (matches fs) (x # xs) = x # filter (matches fs) xs"
        using b True by (simp add: x matches_def)
      then have "take (quota l (length acc)) (filter (matches fs) (x # xs)) =
          x # take (quota l (Suc (length acc))) (filter (matches fs) xs)"
        by (simp only: q take_Suc_Cons)
      then show ?thesis
        by (simp only: step u) (simp add: x)
    qed
  qed
qed

lemma search_loop_break:
  "filters_return fs (pre @ [x]) \<Longrightarrow> matches fs x \<Longrightarrow>
   int (length acc + length (filter (matches fs) pre)) + 1 = l \<Longrightarrow>
     search_loop fs (Finite l) (pre @ x # unread) acc =
       Inr (acc @ filter (matches fs) pre @ [x], unread)"
proof (induction pre arbitrary: acc)
  case Nil
  obtain k v where x: "x = (k, v)" by (cases x)
  from Nil show ?case
    by (simp add: x search_loop_Cons matches_def del: search_loop.simps)
next
  case (Cons y pre)
  obtain k v where y: "y = (k, v)" by (cases y)
  from Cons.prems(1) obtain b where b: "every fs v k = Inr b"
    and rest: "filters_return fs (pre @ [x])"
    by (auto simp: filters_return_def y split: sum.splits)
  show ?case
  proof (cases b)
    case False
    then show ?thesis
      using Cons.IH [OF rest Cons.prems(2), of acc] Cons.prems(3) b
      by (simp add: y search_loop_Cons matches_def del: search_loop.simps)
  next
    case True
    then show ?thesis
      using Cons.IH [OF rest Cons.prems(2), of "acc @ [(k, v)]"] Cons.prems(3) b
      by (simp add: y search_loop_Cons matches_def del: search_loop.simps)
  qed
qed

lemma search_returns:
  assumes "filters_return (allFilters E h options) (getRange db (rangeOpts options))"
  shows "search E h db options =
     Inr (apply_sort E (sort_opt options) (apply_limit (limit options)
       (filter (matches (allFilters E h options)) (getRange db (rangeOpts options)))))"
proof (cases "limit options")
  case None
  then show ?thesis
    using search_loop_infinity [OF assms, of "[]"]
    by (simp add: search_def apply_sort_def apply_limit_def)
next
  case (Some l)
  from search_loop_finite [OF assms, of l "[]"] obtain unread where
    "search_loop (allFilters E h options) (Finite l) (getRange db (rangeOpts options)) [] =
       Inr (take (quota l 0) (filter (matches (allFilters E h options))
         (getRange db (rangeOpts options))), unread)"
    by auto
  with Some show ?thesis
    by (simp add: search_def apply_sort_def apply_limit_def)
qed

lemma lex_prefix_bound:
  fixes p k :: "nat list"
  assumes "\<forall>c \<in> set k. c < m"
  shows "(p \<le> k \<and> k < p @ [m]) \<longleftrightarrow> prefix p k"
  using assms
proof (induction p arbitrary: k)
  case Nil
  then show ?case by (cases k) auto
next
  case (Cons a p)
  then show ?case by (cases k) auto
qed

lemma filters_return_Nil: "filters_return [] xs"
  by (induction xs) (simp_all add: filters_return_def)

lemma matches_Nil: "matches [] e"
  by (simp add: matches_def)

lemma getRange_collection:
  "getRange (collection coll) ro = filter (\<lambda>(k, v). in_range ro k) coll"
  by (simp add: collection_def)

lemma collection_ok_sorted: "collection_ok coll \<Longrightarrow> sorted (map fst (filter P coll))"
proof -
  assume "collection_ok coll"
  then have "sorted (map fst coll)"
    unfolding collection_ok_def by (rule sorted_wrt_mono_rel [rotated]) simp
  then show ?thesis by (rule sorted_filter)
qed

section \<open>Correctness of the deep search\<close>

lemma settled_mono: "settled E t S w \<Longrightarrow> S \<subseteq> S' \<Longrightarrow> settled E t S' w"
  by (auto simp: settled_def split: jsval.splits)

lemma member_of_iff:
  "member_of h (JObject a) w \<longleftrightarrow> a < length h \<and> (\<exists>k \<in> set (for_in_keys (h ! a)). w = obj_get (h ! a) k)"
  by (auto simp: member_of_def)

lemma reachable_step_first: "reachable h u w \<Longrightarrow> member_of h v u \<Longrightarrow> reachable h v w"
  by (induction rule: reachable.induct) (auto intro: reachable.intros)

lemma deepSearch_sound:
  "fst (deepSearchHelper E h v t vis) \<longrightarrow> (\<exists>w. reachable h v w \<and> hit E t w)"
  "fst (deepSearchLoop E h ob ks t vis) \<longrightarrow> (\<exists>k \<in> set ks. \<exists>w. reachable h (obj_get ob k) w \<and> hit E t w)"
proof (induction E h v t vis and E h ob ks t vis rule: deepSearchHelper_deepSearchLoop.induct)
  case (1 E h s t visited)
  show ?case
    by (auto simp: hit_def intro: reachable_self)
next
  case (2 E h a t visited)
  show ?case
  proof (cases "a \<notin> visited \<and> a < length h")
    case True
    show ?thesis
    proof
      assume "fst (deepSearchHelper E h (JObject a) t visited)"
      with True 2 obtain k w where k: "k \<in> set (for_in_keys (h ! a))"
        and w: "reachable h (obj_get (h ! a) k) w" "hit E t w"
        by auto
      from True k have "member_of h (JObject a) (obj_get (h ! a) k)"
        by (auto simp: member_of_iff)
      with w show "\<exists>w. reachable h (JObject a) w \<and> hit E t w"
        by (blast intro: reachable_step_first)
    qed
  next
    case False
    then show ?thesis by auto
  qed
next
  case (8 E h ob key keys t visited)
  then show ?case
    by (auto simp: Let_def split: if_splits)
qed simp_all

lemma deepSearch_complete:
  "\<forall>T. explored E h t vis T \<longrightarrow>
     vis \<subseteq> snd (deepSearchHelper E h v t vis) \<and>
     (\<not> fst (deepSearchHelper E h v t vis) \<longrightarrow>
        explored E h t (snd (deepSearchHelper E h v t vis)) T \<and>
        settled E t (snd (deepSearchHelper E h v t vis)) v)"
  "\<forall>T. explored E h t vis T \<longrightarrow>
     vis \<subseteq> snd (deepSearchLoop E h ob ks t vis) \<and>
     (\<not> fst (deepSearchLoop E h ob ks t vis) \<longrightarrow>
        explored E h t (snd (deepSearchLoop E h ob ks t vis)) T \<and>
        (\<forall>k \<in> set ks. settled E t (snd (deepSearchLoop E h ob ks t vis)) (obj_get ob k)))"
proof (induction E h v t vis and E h ob ks t vis rule: deepSearchHelper_deepSearchLoop.induct)
  case (1 E h s t visited)
  show ?case by (simp add: settled_def)
next
  case (2 E h a t visited)
  show ?case
  proof (intro allI impI)
    fix T assume ex: "explored E h t visited T"
    consider (seen) "a \<in> visited" | (dangling) "a \<notin> visited" "\<not> a < length h"
      | (descend) "a \<notin> visited" "a < length h"
      by blast
    then show "visited \<subseteq> snd (deepSearchHelper E h (JObject a) t visited) \<and>
     (\<not> fst (deepSearchHelper E h (JObject a) t visited) \<longrightarrow>
        explored E h t (snd (deepSearchHelper E h (JObject a) t visited)) T \<and>
        settled E t (snd (deepSearchHelper E h (JObject a) t visited)) (JObject a))"
    proof cases
      case seen
      then show ?thesis using ex by (simp add: settled_def)
    next
      case dangling
      have "explored E h t (insert a visited) T"
        using ex dangling unfolding explored_def
        by (auto simp: member_of_iff intro: settled_mono)
      then show ?thesis using dangling by (auto simp: settled_def)
    next
      case descend
      let ?r = "deepSearchLoop E h (h ! a) (for_in_keys (h ! a)) t (insert a visited)"
      have eq: "deepSearchHelper E h (JObject a) t visited = ?r"
        using descend by simp
      have "explored E h t (insert a visited) (insert a T)"
        using ex unfolding explored_def by (auto intro: settled_mono)
      with 2 [OF descend] have sub: "insert a visited \<subseteq> snd ?r"
        and rest: "\<not> fst ?r \<Longrightarrow> explored E h t (snd ?r) (insert a T) \<and>
           (\<forall>k \<in> set (for_in_keys (h ! a)). settled E t (snd ?r) (obj_get (h ! a) k))"
        by blast+
      have "explored E h t (snd ?r) T \<and> settled E t (snd ?r) (JObject a)" if "\<not> fst ?r"
      proof
        from rest [OF that] show "explored E h t (snd ?r) T"
          unfolding explored_def by (auto simp: member_of_iff)
        from sub show "settled E t (snd ?r) (JObject a)"
          by (auto simp: settled_def)
      qed
      with sub show ?thesis
        unfolding eq by auto
    qed
  qed
next
  case (8 E h ob key keys t visited)
  show ?case
  proof (intro allI impI)
    fix T assume ex: "explored E h t visited T"
    let ?r = "deepSearchHelper E h (obj_get ob key) t visited"
    let ?q = "deepSearchLoop E h ob keys t (snd ?r)"
    from 8(1) ex have sub1: "visited \<subseteq> snd ?r"
      and r: "\<not> fst ?r \<Longrightarrow> explored E h t (snd ?r) T \<and> settled E t (snd ?r) (obj_get ob key)"
      by blast+
    show "visited \<subseteq> snd (deepSearchLoop E h ob (key # keys) t visited) \<and>
     (\<not> fst (deepSearchLoop E h ob (key # keys) t visited) \<longrightarrow>
        explored E h t (snd (deepSearchLoop E h ob (key # keys) t visited)) T \<and>
        (\<forall>k \<in> set (key # keys). settled E t (snd (deepSearchLoop E h ob (key # keys) t visited)) (obj_get ob k)))"
    proof (cases "fst ?r")
      case True
      then show ?thesis using sub1 by (simp add: Let_def)
    next
      case False
      have eq: "deepSearchLoop E h ob (key # keys) t visited = ?q"
        using False by (simp add: Let_def)
      from 8(2) [OF refl False] r [OF False] have sub2: "snd ?r \<subseteq> snd ?q"
        and q: "\<not> fst ?q \<Longrightarrow> explored E h t (snd ?q) T \<and>
            (\<forall>k \<in> set keys. settled E t (snd ?q) (obj_get ob k))"
        by blast+
      have "settled E t (snd ?q) (obj_get ob key)"
        using r [OF False] sub2 by (blast intro: settled_mono)
      with sub1 sub2 q show ?thesis
        unfolding eq by auto
    qed
  qed
qed (simp_all add: settled_def)

lemma explored_reachable:
  assumes "explored E h t S {}" and "settled E t S v" and "reachable h v w"
  shows "settled E t S w"
  using assms(3)
proof (induction rule: reachable.induct)
  case reachable_self
  show ?case by (rule assms(2))
next
  case (reachable_member u w)
  from reachable_member.hyps(2) obtain a where u: "u = JObject a"
    by (auto simp: member_of_def split: jsval.splits)
  with reachable_member.IH have "a \<in> S" by (simp add: settled_def)
  with assms(1) reachable_member.hyps(2) show ?case
    unfolding explored_def u by blast
qed

lemma deepSearchPred_iff:
  "deepSearchPred E h v t \<longleftrightarrow> (\<exists>w. reachable h v w \<and> hit E t w)"
proof
  assume "deepSearchPred E h v t"
  then show "\<exists>w. reachable h v w \<and> hit E t w"
    using deepSearch_sound(1) [of E h v t "{}"] by (simp add: deepSearchPred_def)
next
  assume r: "\<exists>w. reachable h v w \<and> hit E t w"
  show "deepSearchPred E h v t"
  proof (rule ccontr)
    assume "\<not> deepSearchPred E h v t"
    then have n: "\<not> fst (deepSearchHelper E h v t {})" by (simp add: deepSearchPred_def)
    have "explored E h t {} {}" by (simp add: explored_def)
    with deepSearch_complete(1) [of E h t "{}" v] n
    have e: "explored E h t (snd (deepSearchHelper E h v t {})) {}"
      and s: "settled E t (snd (deepSearchHelper E h v t {})) v"
      by blast+
    from r obtain w where w: "reachable h v w" "hit E t w" by blast
    from explored_reachable [OF e s w(1)] w(2) show False
      by (auto simp: settled_def hit_def split: jsval.splits)
  qed
qed

section \<open>Consistent comparators and the engine's sort\<close>

lemma consistent_on_subset:
  "consistent_on cmp xs \<Longrightarrow> set ys \<subseteq> set xs \<Longrightarrow> consistent_on cmp ys"
  unfolding consistent_on_def by blast

lemma consistent_on_mset: "mset xs = mset ys \<Longrightarrow> consistent_on cmp xs = consistent_on cmp ys"
  unfolding consistent_on_def using mset_eq_setD [of xs ys] by simp

lemma consistent_on_refl:
  "consistent_on cmp xs \<Longrightarrow> a \<in> set xs \<Longrightarrow> cmp a a = 0"
  unfolding consistent_on_def consistent_triple_def by blast

lemma consistent_on_sym:
  "consistent_on cmp xs \<Longrightarrow> a \<in> set xs \<Longrightarrow> b \<in> set xs \<Longrightarrow> cmp a b = 0 \<Longrightarrow> cmp b a = 0"
  unfolding consistent_on_def consistent_triple_def by blast

lemma consistent_on_eq_trans:
  "consistent_on cmp xs \<Longrightarrow> a \<in> set xs \<Longrightarrow> b \<in> set xs \<Longrightarrow> c \<in> set xs \<Longrightarrow>
     cmp a b = 0 \<Longrightarrow> cmp b c = 0 \<Longrightarrow> cmp a c = 0"
  unfolding consistent_on_def consistent_triple_def by blast

lemma consistent_on_less_trans:
  "consistent_on cmp xs \<Longrightarrow> a \<in> set xs \<Longrightarrow> b \<in> set xs \<Longrightarrow> c \<in> set xs \<Longrightarrow>
     cmp a b < 0 \<Longrightarrow> cmp b c < 0 \<Longrightarrow> cmp a c < 0"
  unfolding consistent_on_def consistent_triple_def by blast

lemma consistent_on_greater_trans:
  "consistent_on cmp xs \<Longrightarrow> a \<in> set xs \<Longrightarrow> b \<in> set xs \<Longrightarrow> c \<in> set xs \<Longrightarrow>
     0 < cmp a b \<Longrightarrow> 0 < cmp b c \<Longrightarrow> 0 < cmp a c"
  unfolding consistent_on_def consistent_triple_def by blast

lemma consistent_on_less_flip:
  assumes "consistent_on cmp xs" and "a \<in> set xs" and "b \<in> set xs" and "cmp a b < 0"
  shows "0 < cmp b a"
proof (rule ccontr)
  assume "\<not> 0 < cmp b a"
  then consider "cmp b a = 0" | "cmp b a < 0" by linarith
  then show False
  proof cases
    case 1
    from consistent_on_sym [OF assms(1) assms(3) assms(2) 1] assms(4) show False by simp
  next
    case 2
    from consistent_on_less_trans [OF assms(1) assms(2) assms(3) assms(2) assms(4) 2]
      consistent_on_refl [OF assms(1) assms(2)]
    show False by simp
  qed
qed

lemma consistent_on_greater_flip:
  assumes "consistent_on cmp xs" and "a \<in> set xs" and "b \<in> set xs" and "0 < cmp a b"
  shows "cmp b a < 0"
proof (rule ccontr)
  assume "\<not> cmp b a < 0"
  then consider "cmp b a = 0" | "0 < cmp b a" by linarith
  then show False
  proof cases
    case 1
    from consistent_on_sym [OF assms(1) assms(3) assms(2) 1] assms(4) show False by simp
  next
    case 2
    from consistent_on_greater_trans [OF assms(1) assms(2) assms(3) assms(2) assms(4) 2]
      consistent_on_refl [OF assms(1) assms(2)]
    show False by simp
  qed
qed

lemma consistent_on_not_less_iff:
  assumes "consistent_on cmp xs" and "a \<in> set xs" and "b \<in> set xs"
  shows "(\<not> cmp b a < 0) \<longleftrightarrow> cmp a b \<le> 0"
  using consistent_on_less_flip [OF assms(1) assms(3) assms(2)]
    consistent_on_greater_flip [OF assms(1) assms(2) assms(3)]
  by fastforce

lemma consistent_on_le_trans:
  assumes c: "consistent_on cmp xs" and a: "a \<in> set xs" and b: "b \<in> set xs" and d: "d \<in> set xs"
    and ab: "cmp a b \<le> 0" and bd: "cmp b d \<le> 0"
  shows "cmp a d \<le> 0"
proof (rule ccontr)
  assume "\<not> cmp a d \<le> 0"
  then have ad: "0 < cmp a d" by simp
  then have da: "cmp d a < 0"
    by (rule consistent_on_greater_flip [OF c a d])
  consider "cmp a b < 0" | "cmp a b = 0" using ab by linarith
  then show False
  proof cases
    case 1
    from consistent_on_less_trans [OF c d a b da 1] have "cmp d b < 0" .
    from consistent_on_less_flip [OF c d b this] bd show False by simp
  next
    case 2
    consider "cmp b d < 0" | "cmp b d = 0" using bd by linarith
    then show False
    proof cases
      case 1
      from consistent_on_less_trans [OF c b d a 1 da] have "cmp b a < 0" .
      with consistent_on_sym [OF c a b 2] show False by simp
    next
      case 2
      from consistent_on_eq_trans [OF c a b d \<open>cmp a b = 0\<close> 2] ad show False by simp
    qed
  qed
qed

lemma sorted_wrt_consistent:
  assumes "consistent_on cmp xs"
  shows "sorted_wrt (\<lambda>a b. \<not> cmp b a < 0) xs \<longleftrightarrow> sorted_wrt (\<lambda>a b. cmp a b \<le> 0) xs"
  unfolding sorted_wrt_iff_nth_less
  using consistent_on_not_less_iff [OF assms] by (metis nth_mem order_less_trans)

lemma sort_conforms_mset: "sort_conforms E \<Longrightarrow> mset (array_sort E cmp xs) = mset xs"
  unfolding sort_conforms_def by blast

lemma sort_conforms_sorted:
  assumes "sort_conforms E" and "consistent_on cmp xs"
  shows "sorted_wrt (\<lambda>a b. cmp a b \<le> 0) (array_sort E cmp xs)"
proof -
  have "consistent_on cmp (array_sort E cmp xs)"
    using consistent_on_mset [OF sort_conforms_mset [OF assms(1)], of cmp cmp xs] assms(2)
    by simp
  moreover have "sorted_wrt (\<lambda>a b. \<not> cmp b a < 0) (array_sort E cmp xs)"
    using assms unfolding sort_conforms_def by blast
  ultimately show ?thesis
    by (simp add: sorted_wrt_consistent)
qed

section \<open>The reference engine\<close>

lemma mset_insert_sorted: "mset (insert_sorted cmp x ys) = add_mset x (mset ys)"
  by (induction ys) simp_all

lemma mset_insertion_sort: "mset (insertion_sort cmp xs) = mset xs"
  unfolding insertion_sort_def by (induction xs) (simp_all add: mset_insert_sorted)

lemma set_insert_sorted: "set (insert_sorted cmp x ys) = insert x (set ys)"
  by (induction ys) auto

lemma sorted_insert_sorted:
  "consistent_on cmp (x # ys) \<Longrightarrow> sorted_wrt (\<lambda>a b. cmp a b \<le> 0) ys \<Longrightarrow>
     sorted_wrt (\<lambda>a b. cmp a b \<le> 0) (insert_sorted cmp x ys)"
proof (induction ys)
  case Nil
  then show ?case by simp
next
  case (Cons y ys)
  note c = Cons.prems(1)
  from Cons.prems(2) have above: "\<forall>z \<in> set ys. cmp y z \<le> 0"
    and tail: "sorted_wrt (\<lambda>a b. cmp a b \<le> 0) ys"
    by simp_all
  have "consistent_on cmp (x # ys)"
    using c by (rule consistent_on_subset) auto
  with Cons.IH tail have ih: "sorted_wrt (\<lambda>a b. cmp a b \<le> 0) (insert_sorted cmp x ys)"
    by simp
  show ?case
  proof (cases "cmp y x < 0")
    case True
    with ih above show ?thesis
      by (simp add: set_insert_sorted)
  next
    case False
    then have xy: "cmp x y \<le> 0"
      using consistent_on_not_less_iff [OF c, of x y] by simp
    have "cmp x z \<le> 0" if "z \<in> set ys" for z
      using consistent_on_le_trans [OF c, of x y z] that xy above by simp
    with False xy Cons.prems(2) show ?thesis
      by simp
  qed
qed

lemma sorted_insertion_sort:
  "consistent_on cmp xs \<Longrightarrow> sorted_wrt (\<lambda>a b. cmp a b \<le> 0) (insertion_sort cmp xs)"
proof (induction xs)
  case Nil
  then show ?case by (simp add: insertion_sort_def)
next
  case (Cons x xs)
  have "mset (x # insertion_sort cmp xs) = mset (x # xs)"
    by (simp add: mset_insertion_sort)
  from consistent_on_mset [OF this] Cons.prems
  have "consistent_on cmp (x # insertion_sort cmp xs)" by simp
  moreover from Cons have "sorted_wrt (\<lambda>a b. cmp a b \<le> 0) (insertion_sort cmp xs)"
    by (simp add: consistent_on_subset [OF Cons.prems] subset_insertI)
  ultimately have "sorted_wrt (\<lambda>a b. cmp a b \<le> 0) (insert_sorted cmp x (insertion_sort cmp xs))"
    by (rule sorted_insert_sorted)
  then show ?case by (simp add: insertion_sort_def)
qed

text \<open>
  On comparators that are not consistent the insertion sort does what the engines were
  seen to do: the constant \<open>-1\<close> reverses the array, and a comparator that is never
  negative leaves it as it is.
\<close>

lemma insertion_sort_inconsistent:
  "insertion_sort (\<lambda>a b. - 1) [1, 2, 3 :: nat] = [3, 2, 1]"
  "insertion_sort (\<lambda>a b. if b < a then 1 else 0) [5, 1 :: nat] = [5, 1]"
  by (simp_all add: insertion_sort_def)

lemma reference_engine_sort: "sort_conforms reference_engine"
  unfolding sort_conforms_def
proof (intro allI conjI impI)
  fix cmp :: "entry \<Rightarrow> entry \<Rightarrow> int" and xs
  show "mset (array_sort reference_engine cmp xs) = mset xs"
    by (simp add: reference_engine_def mset_insertion_sort)
  assume c: "consistent_on cmp xs"
  then have "consistent_on cmp (insertion_sort cmp xs)"
    using consistent_on_mset [OF mset_insertion_sort, of cmp cmp xs] by simp
  with sorted_insertion_sort [OF c]
  show "sorted_wrt (\<lambda>a b. \<not> cmp b a < 0) (array_sort reference_engine cmp xs)"
    by (simp add: reference_engine_def sorted_wrt_consistent)
qed

lemma reference_engine_lower: "lowers_ascii reference_engine"
  by (simp add: lowers_ascii_def reference_engine_def)

lemma lowers_asciiD: "lowers_ascii E \<Longrightarrow> is_ascii s \<Longrightarrow> toLowerCase E s = ascii_lower s"
  by (simp add: lowers_ascii_def)

lemma lowers_ascii_Nil: "lowers_ascii E \<Longrightarrow> toLowerCase E [] = []"
  by (simp add: lowers_ascii_def is_ascii_def ascii_lower_def)

section \<open>Case-insensitive containment\<close>

lemma same_letter_iff:
  "same_letter a b \<longleftrightarrow>
     (if 65 \<le> a \<and> a \<le> 90 then a + 32 else a) = (if 65 \<le> b \<and> b \<le> 90 then b + 32 else b)"
  unfolding same_letter_def by auto

lemma prefix_map_iff:
  "prefix (map f t) (map f s) \<longleftrightarrow> list_all2 (\<lambda>a b. f a = f b) (take (length t) s) t"
proof (induction t arbitrary: s)
  case Nil
  then show ?case by simp
next
  case (Cons a t)
  then show ?case by (cases s) auto
qed

lemma ascii_lower_includes:
  "str_includes (ascii_lower s) (ascii_lower t) \<longleftrightarrow> ci_includes s t"
proof (induction s)
  case Nil
  then show ?case by (simp add: ascii_lower_def)
next
  case (Cons c cs)
  have "prefix (ascii_lower t) (ascii_lower (c # cs)) \<longleftrightarrow>
      list_all2 same_letter (take (length t) (c # cs)) t"
    unfolding ascii_lower_def prefix_map_iff same_letter_iff ..
  with Cons show ?case
    by (simp add: ascii_lower_def)
qed

lemmas example_defs = deepSearchPred_def js_def reference_engine_def ascii_lower_def
  for_in_keys_def obj_get_def

lemmas search_defs = search_def collection_def no_options_def rangeOpts_def range_start_def
  range_end_def allFilters_def searchText_def in_range_def

section \<open>Prefix ranges\<close>

text \<open>
  Claim C1. For every prefix \<open>P\<close> and every collection whose keys hold no code point at or
  above U+FFFF, \<open>search\<close> with only the prefix option returns exactly the entries whose key
  starts with \<open>P\<close>, in ascending key order; the sequence it scans is the range from \<open>P\<close>
  (included) to \<open>P\<close> followed by U+FFFF (excluded).
\<close>

theorem search_prefix_exact:
  assumes "collection_ok coll"
    and "\<forall>(k, v) \<in> set coll. \<forall>c \<in> set k. c < 0xFFFF"
  shows "search E h (collection coll) (no_options\<lparr>prefix_opt := Some P\<rparr>) =
           Inr (filter (\<lambda>(k, v). prefix P k) coll) \<and>
         sorted (map fst (filter (\<lambda>(k, v). prefix P k) coll)) \<and>
         getRange (collection coll) (rangeOpts (no_options\<lparr>prefix_opt := Some P\<rparr>)) =
           filter (\<lambda>(k, v). P \<le> k \<and> k < P @ [0xFFFF]) coll \<and>
         (P \<noteq> [] \<longrightarrow>
            rangeOpts (no_options\<lparr>prefix_opt := Some P\<rparr> :: unit SearchOptions) =
              \<lparr>start = P, end_key = Some (P @ [0xFFFF]), passthrough = None\<rparr>)"
proof -
  let ?o = "no_options\<lparr>prefix_opt := Some P\<rparr> :: unit SearchOptions"
  have bound: "(P \<le> k \<and> k < P @ [0xFFFF]) \<longleftrightarrow> prefix P k" if "(k, v) \<in> set coll" for k v
    using assms(2) that by (intro lex_prefix_bound) auto
  have inr: "in_range (rangeOpts ?o) k \<longleftrightarrow> prefix P k" if "(k, v) \<in> set coll" for k v
  proof (cases "P = []")
    case True
    then show ?thesis
      by (simp add: in_range_def rangeOpts_def range_start_def range_end_def no_options_def)
  next
    case False
    then show ?thesis
      using bound [OF that]
      by (simp add: in_range_def rangeOpts_def range_start_def range_end_def no_options_def)
  qed
  have scan: "getRange (collection coll) (rangeOpts ?o) = filter (\<lambda>(k, v). prefix P k) coll"
    unfolding getRange_collection by (rule filter_cong) (auto simp: inr)
  have range: "filter (\<lambda>(k, v). P \<le> k \<and> k < P @ [0xFFFF]) coll = filter (\<lambda>(k, v). prefix P k) coll"
    using bound by (intro filter_cong refl) fastforce
  have opts: "allFilters E h ?o = []" "limit ?o = None" "sort_opt ?o = None"
    by (simp_all add: allFilters_def searchText_def no_options_def)
  have "search E h (collection coll) ?o = Inr (getRange (collection coll) (rangeOpts ?o))"
    using search_returns [of E h ?o "collection coll"]
    unfolding opts by (simp add: filters_return_Nil matches_Nil apply_sort_def apply_limit_def)
  moreover have "rangeOpts ?o = \<lparr>start = P, end_key = Some (P @ [0xFFFF]), passthrough = None\<rparr>"
    if "P \<noteq> []"
    using that by (simp add: rangeOpts_def range_start_def range_end_def no_options_def)
  ultimately show ?thesis
    using scan range collection_ok_sorted [OF assms(1)] by simp
qed

theorem search_prefix_exact_witness:
  "collection_ok [(js ''a:1'', JNumber 1), (js ''p:1'', JNumber 2), (js ''p:2'', JNumber 3),
       (js ''q'', JNumber 4)] \<and>
   search reference_engine [] (collection [(js ''a:1'', JNumber 1), (js ''p:1'', JNumber 2), (js ''p:2'', JNumber 3),
       (js ''q'', JNumber 4)]) (no_options\<lparr>prefix_opt := Some (js ''p:'')\<rparr>) =
     Inr [(js ''p:1'', JNumber 2), (js ''p:2'', JNumber 3)]"
proof -
  let ?c = "[(js ''a:1'', JNumber 1), (js ''p:1'', JNumber 2), (js ''p:2'', JNumber 3),
       (js ''q'', JNumber 4)]"
  have ok: "collection_ok ?c"
    by (simp add: collection_ok_def js_def)
  have small: "\<forall>(k, v) \<in> set ?c. \<forall>c \<in> set k. c < 0xFFFF"
    by (simp add: js_def)
  from search_prefix_exact [OF ok small, where E = reference_engine and h = "[]"
      and P = "js ''p:''"] ok
  show ?thesis
    by (simp add: js_def)
qed

section \<open>Filters\<close>

lemma getRange_unbounded:
  "prefix_opt options = None \<Longrightarrow> getRange (collection coll) (rangeOpts options) = coll"
  by (simp add: getRange_collection in_range_def rangeOpts_def range_start_def range_end_def)

text \<open>
  Claim C2. With the filter list \<open>[f1, f2]\<close>, \<open>search\<close> returns exactly the entries of the
  collection on which both filters return true. The filters are called in the order given
  and the second one only where the first returned true: \<open>f2\<close> need not return elsewhere,
  and what \<open>f1\<close> throws is thrown. With no options at all, \<open>search\<close> returns every entry
  of the collection, in the collection's key order.
\<close>

theorem search_filters_conjunction:
  assumes "\<forall>(k, v) \<in> set coll. f1 v k = Inr (p1 v k) \<and> (p1 v k \<longrightarrow> f2 v k = Inr (p2 v k))"
  shows "search E h (collection coll) (no_options\<lparr>filters := Some [f1, f2]\<rparr>) =
           Inr (filter (\<lambda>(k, v). p1 v k \<and> p2 v k) coll) \<and>
         every [f1, f2] w key =
           (case f1 w key of
              Inl e \<Rightarrow> Inl e
            | Inr b \<Rightarrow> if b then (case f2 w key of Inl e \<Rightarrow> Inl e | Inr c \<Rightarrow> Inr c) else Inr False) \<and>
         search E h (collection coll) no_options = Inr coll"
proof (intro conjI)
  let ?o = "no_options\<lparr>filters := Some [f1, f2]\<rparr> :: unit SearchOptions"
  have opts: "allFilters E h ?o = [f1, f2]" "limit ?o = None" "sort_opt ?o = None"
    by (simp_all add: allFilters_def searchText_def no_options_def)
  have scan: "getRange (collection coll) (rangeOpts ?o) = coll"
    by (rule getRange_unbounded) (simp add: no_options_def)
  have verdict: "every [f1, f2] v k = Inr (p1 v k \<and> p2 v k)" if "(k, v) \<in> set coll" for k v
    using assms that by (cases "p1 v k"; cases "p2 v k") auto
  have ret: "filters_return [f1, f2] coll"
    unfolding filters_return_def list_all_iff using verdict by auto
  have "filter (matches [f1, f2]) coll = filter (\<lambda>(k, v). p1 v k \<and> p2 v k) coll"
    using verdict by (intro filter_cong refl) (auto simp: matches_def)
  then show "search E h (collection coll) ?o = Inr (filter (\<lambda>(k, v). p1 v k \<and> p2 v k) coll)"
    using search_returns [of E h ?o "collection coll"] ret
    unfolding opts scan by (simp add: apply_sort_def apply_limit_def)
next
  show "every [f1, f2] w key =
      (case f1 w key of
         Inl e \<Rightarrow> Inl e
       | Inr b \<Rightarrow> if b then (case f2 w key of Inl e \<Rightarrow> Inl e | Inr c \<Rightarrow> Inr c) else Inr False)"
    by (simp split: sum.splits)
next
  let ?o = "no_options :: unit SearchOptions"
  have opts: "allFilters E h ?o = []" "limit ?o = None" "sort_opt ?o = None"
    by (simp_all add: allFilters_def searchText_def no_options_def)
  have scan: "getRange (collection coll) (rangeOpts ?o) = coll"
    by (rule getRange_unbounded) (simp add: no_options_def)
  show "search E h (collection coll) ?o = Inr coll"
    using search_returns [of E h ?o "collection coll"]
    unfolding opts scan
    by (simp add: filters_return_Nil matches_Nil apply_sort_def apply_limit_def)
qed

theorem search_filters_conjunction_witness:
  "search reference_engine
     [[(js ''name'', JString (js ''Laptop'')), (js ''price'', JNumber 999)],
      [(js ''name'', JString (js ''Mouse'')), (js ''price'', JNumber 29)],
      [(js ''name'', JString (js ''Keyboard'')), (js ''price'', JNumber 79)]]
     (collection [(js ''p1'', JObject 0), (js ''p2'', JObject 1), (js ''p3'', JObject 2)])
     (no_options\<lparr>filters := Some
        [\<lambda>p key. Inr (number_of
           [[(js ''name'', JString (js ''Laptop'')), (js ''price'', JNumber 999)],
            [(js ''name'', JString (js ''Mouse'')), (js ''price'', JNumber 29)],
            [(js ''name'', JString (js ''Keyboard'')), (js ''price'', JNumber 79)]]
           (js ''price'') p < 100),
         \<lambda>p key. if p = JObject 0 then Inl (Thrown JNull) else Inr (p \<noteq> JObject 1)]\<rparr>) =
   Inr [(js ''p3'', JObject 2)]"
proof -
  let ?h = "[[(js ''name'', JString (js ''Laptop'')), (js ''price'', JNumber 999)],
      [(js ''name'', JString (js ''Mouse'')), (js ''price'', JNumber 29)],
      [(js ''name'', JString (js ''Keyboard'')), (js ''price'', JNumber 79)]]"
  let ?c = "[(js ''p1'', JObject 0), (js ''p2'', JObject 1), (js ''p3'', JObject 2)]"
  let ?f1 = "\<lambda>p key :: jsstring. Inr (number_of ?h (js ''price'') p < 100) :: error + bool"
  let ?f2 = "\<lambda>p key :: jsstring. if p = JObject 0 then Inl (Thrown JNull) else Inr (p \<noteq> JObject 1)"
  have "\<forall>(k, v) \<in> set ?c. ?f1 v k = Inr (number_of ?h (js ''price'') v < 100) \<and>
      (number_of ?h (js ''price'') v < 100 \<longrightarrow> ?f2 v k = Inr (v \<noteq> JObject 1))"
    by (simp add: number_of_def obj_get_def js_def)
  from search_filters_conjunction [of ?c ?f1 "\<lambda>v k. number_of ?h (js ''price'') v < 100" ?f2
      "\<lambda>v k. v \<noteq> JObject 1", OF this, where E = reference_engine and h = ?h]
  show ?thesis
    by (simp add: number_of_def obj_get_def js_def)
qed


section \<open>Matches of the deep search\<close>

lemma hit_iff: "hit E t w \<longleftrightarrow> (\<exists>s. w = JString s \<and> str_includes (toLowerCase E s) t)"
  by (cases w) (simp_all add: hit_def)

lemma reachable_from_string: "reachable h (JString s) w \<Longrightarrow> w = JString s"
  by (induction rule: reachable.induct) (simp_all add: member_of_def)

lemmas ascii_defs = deepSearchPred_def js_def lowers_asciiD is_ascii_def ascii_lower_def
  for_in_keys_def obj_get_def

text \<open>
  Claim C3. The deep-search predicate holds of a record exactly when some string reachable
  from it through objects and arrays includes the search term, both lower-cased by the
  engine. On ASCII strings that is containment up to the case of the letters. The record
  \<open>{name: "Book", details: {description: "A story about a blue pen."}}\<close> matches \<open>pen\<close> and
  \<open>PEN\<close>, and so does \<open>{name: "Pen"}\<close>; a record with no such field does not match;
  numbers, booleans, \<open>null\<close> and \<open>undefined\<close> yield false. Beyond ASCII the engine's case
  table decides: where it lowers U+00C9 to U+00E9, the term U+00C9 finds the record whose
  name is U+00E9 followed by \<open>cole\<close>.
\<close>

theorem deepSearch_matches_reachable_text:
  "deepSearchPred E h v (toLowerCase E q) =
     (\<exists>s. reachable h v (JString s) \<and> str_includes (toLowerCase E s) (toLowerCase E q)) \<and>
   (lowers_ascii E \<and> is_ascii r \<and> is_ascii q \<longrightarrow>
      str_includes (toLowerCase E r) (toLowerCase E q) = ci_includes r q) \<and>
   (lowers_ascii E \<and> is_ascii q \<and> (\<forall>s. reachable h v (JString s) \<longrightarrow> is_ascii s) \<longrightarrow>
      deepSearchPred E h v (toLowerCase E q) =
        (\<exists>s. reachable h v (JString s) \<and> ci_includes s q)) \<and>
   (lowers_ascii E \<longrightarrow>
      deepSearchPred E
        [[(js ''name'', JString (js ''Book'')), (js ''details'', JObject 1)],
         [(js ''description'', JString (js ''A story about a blue pen.''))]]
        (JObject 0) (toLowerCase E (js ''pen'')) \<and>
      deepSearchPred E
        [[(js ''name'', JString (js ''Book'')), (js ''details'', JObject 1)],
         [(js ''description'', JString (js ''A story about a blue pen.''))]]
        (JObject 0) (toLowerCase E (js ''PEN'')) \<and>
      deepSearchPred E [[(js ''name'', JString (js ''Pen''))]] (JObject 0)
        (toLowerCase E (js ''pen'')) \<and>
      \<not> deepSearchPred E
        [[(js ''name'', JString (js ''Ink'')), (js ''price'', JNumber 3),
          (js ''sold'', JBoolean True), (js ''note'', JNull), (js ''tags'', JObject 1)],
         [(js ''0'', JString (js ''blue'')), (js ''1'', JUndefined)]]
        (JObject 0) (toLowerCase E (js ''pen'')) \<and>
      search E
        [[(js ''name'', JString (js ''Pen''))],
         [(js ''name'', JString (js ''Book'')), (js ''details'', JObject 2)],
         [(js ''description'', JString (js ''A story about a blue pen.''))],
         [(js ''name'', JString (js ''Ink'')), (js ''price'', JNumber 3)]]
        (collection [(js ''i:1'', JObject 0), (js ''i:2'', JObject 1), (js ''i:3'', JObject 3)])
        (no_options\<lparr>deepSearch := Some (js ''PEN'')\<rparr>) =
      Inr [(js ''i:1'', JObject 0), (js ''i:2'', JObject 1)]) \<and>
   (toLowerCase E [201] = [233] \<and> toLowerCase E [233, 99, 111, 108, 101] = [233, 99, 111, 108, 101] \<longrightarrow>
      search E [[(js ''name'', JString [233, 99, 111, 108, 101])]]
        (collection [(js ''i:1'', JObject 0)]) (no_options\<lparr>deepSearch := Some [201]\<rparr>) =
      Inr [(js ''i:1'', JObject 0)]) \<and>
   deepSearchHelper E h (JNumber n) t vis = (False, vis) \<and>
   deepSearchHelper E h (JBoolean b) t vis = (False, vis) \<and>
   deepSearchHelper E h JNull t vis = (False, vis) \<and>
   deepSearchHelper E h JUndefined t vis = (False, vis)"
proof (intro conjI impI)
  have "(\<exists>w. reachable h v w \<and> hit E (toLowerCase E q) w) =
      (\<exists>s. reachable h v (JString s) \<and> str_includes (toLowerCase E s) (toLowerCase E q))"
    unfolding hit_iff by blast
  then show "deepSearchPred E h v (toLowerCase E q) =
      (\<exists>s. reachable h v (JString s) \<and> str_includes (toLowerCase E s) (toLowerCase E q))"
    by (simp add: deepSearchPred_iff)
next
  assume "lowers_ascii E \<and> is_ascii r \<and> is_ascii q"
  then show "str_includes (toLowerCase E r) (toLowerCase E q) = ci_includes r q"
    by (simp add: lowers_asciiD ascii_lower_includes)
next
  assume a: "lowers_ascii E \<and> is_ascii q \<and> (\<forall>s. reachable h v (JString s) \<longrightarrow> is_ascii s)"
  then have "str_includes (toLowerCase E s) (toLowerCase E q) = ci_includes s q"
    if "reachable h v (JString s)" for s
    using that by (simp add: lowers_asciiD ascii_lower_includes)
  then have "(\<exists>w. reachable h v w \<and> hit E (toLowerCase E q) w) =
      (\<exists>s. reachable h v (JString s) \<and> ci_includes s q)"
    unfolding hit_iff by blast
  then show "deepSearchPred E h v (toLowerCase E q) =
      (\<exists>s. reachable h v (JString s) \<and> ci_includes s q)"
    by (simp add: deepSearchPred_iff)
next
  assume "toLowerCase E [201] = [233] \<and>
    toLowerCase E [233, 99, 111, 108, 101] = [233, 99, 111, 108, 101]"
  then show "search E [[(js ''name'', JString [233, 99, 111, 108, 101])]]
        (collection [(js ''i:1'', JObject 0)]) (no_options\<lparr>deepSearch := Some [201]\<rparr>) =
      Inr [(js ''i:1'', JObject 0)]"
    by (simp add: search_defs deepSearchPred_def js_def for_in_keys_def obj_get_def)
qed (simp_all add: ascii_defs search_defs)

theorem deepSearch_matches_reachable_text_witness:
  "deepSearchPred reference_engine
      [[(js ''name'', JString (js ''Book'')), (js ''details'', JObject 1)],
       [(js ''description'', JString (js ''A story about a blue pen.''))]]
      (JObject 0) (toLowerCase reference_engine (js ''PEN'')) \<and>
   (\<exists>s. reachable
      [[(js ''name'', JString (js ''Book'')), (js ''details'', JObject 1)],
       [(js ''description'', JString (js ''A story about a blue pen.''))]]
      (JObject 0) (JString s) \<and>
    str_includes (toLowerCase reference_engine s) (toLowerCase reference_engine (js ''PEN''))) \<and>
   ci_includes (js ''A story about a blue pen.'') (js ''PEN'') \<and>
   deepSearchPred reference_engine [] (JString (js ''Blue Pen''))
     (toLowerCase reference_engine (js ''PEN'')) =
     (\<exists>s. reachable [] (JString (js ''Blue Pen'')) (JString s) \<and> ci_includes s (js ''PEN''))"
proof -
  have only: "\<forall>s. reachable [] (JString (js ''Blue Pen'')) (JString s) \<longrightarrow> is_ascii s"
  proof (intro allI impI)
    fix s assume "reachable [] (JString (js ''Blue Pen'')) (JString s)"
    then have "s = js ''Blue Pen''"
      using reachable_from_string [of "[]" "js ''Blue Pen''" "JString s"] by simp
    then show "is_ascii s"
      by (simp add: is_ascii_def js_def)
  qed
  have pen: "is_ascii (js ''PEN'')"
    by (simp add: is_ascii_def js_def)
  have flat: "deepSearchPred reference_engine [] (JString (js ''Blue Pen''))
     (toLowerCase reference_engine (js ''PEN'')) =
     (\<exists>s. reachable [] (JString (js ''Blue Pen'')) (JString s) \<and> ci_includes s (js ''PEN''))"
    using deepSearch_matches_reachable_text
      [where E = reference_engine and q = "js ''PEN''" and h = "[]"
        and v = "JString (js ''Blue Pen'')"]
      reference_engine_lower only pen
    by blast
  have a: "is_ascii (js ''A story about a blue pen.'')" "is_ascii (js ''PEN'')"
    by (simp_all add: is_ascii_def js_def)
  have i: "str_includes (toLowerCase reference_engine (js ''A story about a blue pen.''))
      (toLowerCase reference_engine (js ''PEN''))"
    by (simp add: example_defs)
  from deepSearch_matches_reachable_text
    [where E = reference_engine and q = "js ''PEN''"
      and r = "js ''A story about a blue pen.''"
      and h = "[[(js ''name'', JString (js ''Book'')), (js ''details'', JObject 1)],
       [(js ''description'', JString (js ''A story about a blue pen.''))]]"
      and v = "JObject 0"]
    reference_engine_lower a i flat
  show ?thesis by blast
qed

section \<open>Termination on cyclic values\<close>

text \<open>
  Claim C8. The deep-search recursion terminates on every heap, value, term and visited
  set, cyclic object graphs included: an object already in the visited set returns false
  without being entered, the visited set only grows, and each object entered is a new one
  of the finitely many of the heap. On an object that refers to itself the predicate
  returns, true when the text reachable through the cycle includes the term and false
  otherwise.
\<close>

theorem deepSearchHelper_terminates:
  "deepSearchHelper_deepSearchLoop_dom (Inl (E, h, v, t, visited)) \<and>
   deepSearchHelper_deepSearchLoop_dom (Inr (E, h, ob, ks, t, visited)) \<and>
   (a \<in> visited \<longrightarrow> deepSearchHelper E h (JObject a) t visited = (False, visited)) \<and>
   visited \<subseteq> snd (deepSearchHelper E h v t visited) \<and>
   (a \<notin> visited \<and> a < length h \<longrightarrow>
      unvisited h (insert a visited) < unvisited h visited) \<and>
   (reachable h v (JString s) \<and> str_includes (toLowerCase E s) t \<longrightarrow> deepSearchPred E h v t) \<and>
   (lowers_ascii E \<longrightarrow>
      deepSearchPred E
        [[(js ''name'', JString (js ''Loop'')), (js ''self'', JObject 0), (js ''next'', JObject 1)],
         [(js ''back'', JObject 0), (js ''note'', JString (js ''Blue Pen''))]]
        (JObject 0) (js ''pen'') = True \<and>
      deepSearchPred E
        [[(js ''name'', JString (js ''Loop'')), (js ''self'', JObject 0), (js ''next'', JObject 1)],
         [(js ''back'', JObject 0), (js ''note'', JString (js ''Blue Pen''))]]
        (JObject 0) (js ''ink'') = False)"
proof (intro conjI impI)
  show "deepSearchHelper_deepSearchLoop_dom (Inl (E, h, v, t, visited))"
    using deepSearch_total by blast
  show "deepSearchHelper_deepSearchLoop_dom (Inr (E, h, ob, ks, t, visited))"
    using deepSearch_total by blast
  show "visited \<subseteq> snd (deepSearchHelper E h v t visited)"
    using deepSearch_total by (intro deepSearch_visited_mono) blast
  show "deepSearchPred E h v t"
    if "reachable h v (JString s) \<and> str_includes (toLowerCase E s) t"
    using that unfolding deepSearchPred_iff hit_iff by blast
  show "unvisited h (insert a visited) < unvisited h visited"
    if "a \<notin> visited \<and> a < length h"
    using that by (simp add: unvisited_insert)
qed (simp_all add: ascii_defs)

theorem deepSearchHelper_terminates_witness:
  "deepSearchHelper reference_engine
     [[(js ''self'', JObject 0), (js ''name'', JString (js ''Pen''))]]
     (JObject 0) (js ''pen'') {0} = (False, {0}) \<and>
   deepSearchPred reference_engine
     [[(js ''self'', JObject 0), (js ''name'', JString (js ''Pen''))]]
     (JObject 0) (js ''pen'')"
proof -
  let ?h = "[[(js ''self'', JObject 0), (js ''name'', JString (js ''Pen''))]]"
  have r: "reachable ?h (JObject 0) (JString (js ''Pen''))"
    by (rule reachable_member [OF reachable_self]) (simp add: member_of_def example_defs)
  have i: "str_includes (toLowerCase reference_engine (js ''Pen'')) (js ''pen'')"
    by (simp add: example_defs)
  from deepSearchHelper_terminates [where E = reference_engine and h = ?h and v = "JObject 0"
      and t = "js ''pen''" and visited = "{0}" and a = 0 and s = "js ''Pen''"]
    deepSearchHelper_terminates [where E = reference_engine and h = ?h and v = "JObject 0"
      and t = "js ''pen''" and visited = "{}" and a = 0 and s = "js ''Pen''"] r i
  show ?thesis by blast
qed

section \<open>Limits\<close>

lemma search_unsorted:
  "sort_opt options = None \<Longrightarrow>
     search E h db options =
       (case search_loop (allFilters E h options)
               (case limit options of None \<Rightarrow> Infinity | Some l \<Rightarrow> Finite l)
               (getRange db (rangeOpts options)) [] of
          Inl e \<Rightarrow> Inl e
        | Inr (results, unread) \<Rightarrow> Inr results)"
  by (simp add: search_def split: sum.splits)

text \<open>
  Claim C5. With a positive limit \<open>n\<close> and no comparator, \<open>search\<close> returns the first \<open>n\<close>
  matching entries of the range in the order met. The loop ends at the \<open>n\<close>-th match: what
  follows it in the range is left unread (the filters are not called on it, so \<open>search\<close>
  returns even where they would throw there). Of five matching entries and limit 2, the
  first two are returned.
\<close>

theorem search_limit_first_matches:
  assumes "0 < n" and "limit options = Some n" and "sort_opt options = None"
  shows "(filters_return (allFilters E h options) (getRange db (rangeOpts options)) \<longrightarrow>
           search E h db options =
             Inr (take (nat n) (filter (matches (allFilters E h options))
               (getRange db (rangeOpts options))))) \<and>
         (getRange db (rangeOpts options) = seen @ x # unread \<and>
          filters_return (allFilters E h options) (seen @ [x]) \<and>
          matches (allFilters E h options) x \<and>
          length (filter (matches (allFilters E h options)) seen) + 1 = nat n \<longrightarrow>
            search_loop (allFilters E h options) (Finite n) (seen @ x # unread) [] =
              Inr (filter (matches (allFilters E h options)) seen @ [x], unread) \<and>
            search E h db options =
              Inr (take (nat n) (filter (matches (allFilters E h options))
                (getRange db (rangeOpts options)))))"
proof (intro conjI impI)
  assume "filters_return (allFilters E h options) (getRange db (rangeOpts options))"
  from search_returns [OF this] assms
  show "search E h db options =
      Inr (take (nat n) (filter (matches (allFilters E h options))
        (getRange db (rangeOpts options))))"
    by (simp add: apply_sort_def apply_limit_def quota_def max_def)
next
  let ?fs = "allFilters E h options"
  assume a: "getRange db (rangeOpts options) = seen @ x # unread \<and>
    filters_return ?fs (seen @ [x]) \<and> matches ?fs x \<and>
    length (filter (matches ?fs) seen) + 1 = nat n"
  then have "int (length ([] :: entry list) + length (filter (matches ?fs) seen)) + 1 = n"
    using assms(1) by auto
  with a have loop: "search_loop ?fs (Finite n) (seen @ x # unread) [] =
      Inr ([] @ filter (matches ?fs) seen @ [x], unread)"
    by (intro search_loop_break) simp_all
  then show "search_loop ?fs (Finite n) (seen @ x # unread) [] =
      Inr (filter (matches ?fs) seen @ [x], unread)"
    by simp
  from a have "nat n - length (filter (matches ?fs) seen) = Suc 0"
    by linarith
  with a have "take (nat n) (filter (matches ?fs) (seen @ x # unread)) =
      filter (matches ?fs) seen @ [x]"
    by simp
  with loop a show "search E h db options =
      Inr (take (nat n) (filter (matches ?fs) (getRange db (rangeOpts options))))"
    by (simp add: search_unsorted [OF assms(3)] assms(2))
qed

theorem search_limit_first_matches_witness:
  "search reference_engine []
     (collection [(js ''k1'', JNumber 1), (js ''k2'', JNumber 2), (js ''k3'', JNumber 3),
        (js ''k4'', JNumber 4), (js ''k5'', JNumber 5)])
     (no_options\<lparr>limit := Some 2\<rparr>) =
     Inr [(js ''k1'', JNumber 1), (js ''k2'', JNumber 2)] \<and>
   search_loop [] (Finite 2)
     ([(js ''k1'', JNumber 1)] @ (js ''k2'', JNumber 2) #
      [(js ''k3'', JNumber 3), (js ''k4'', JNumber 4), (js ''k5'', JNumber 5)]) [] =
     Inr ([(js ''k1'', JNumber 1), (js ''k2'', JNumber 2)],
          [(js ''k3'', JNumber 3), (js ''k4'', JNumber 4), (js ''k5'', JNumber 5)])"
proof -
  let ?c = "[(js ''k1'', JNumber 1), (js ''k2'', JNumber 2), (js ''k3'', JNumber 3),
        (js ''k4'', JNumber 4), (js ''k5'', JNumber 5)]"
  let ?o = "no_options\<lparr>limit := Some 2\<rparr> :: unit SearchOptions"
  have o: "(0::int) < 2" "limit ?o = Some 2" "sort_opt ?o = None"
    by (simp_all add: no_options_def)
  have fs: "allFilters reference_engine [] ?o = []"
    by (simp add: allFilters_def searchText_def no_options_def)
  have scan: "getRange (collection ?c) (rangeOpts ?o) = ?c"
    by (rule getRange_unbounded) (simp add: no_options_def)
  from search_limit_first_matches [OF o, where E = reference_engine and h = "[]"
      and db = "collection ?c" and seen = "[(js ''k1'', JNumber 1)]"
      and x = "(js ''k2'', JNumber 2)"
      and unread = "[(js ''k3'', JNumber 3), (js ''k4'', JNumber 4), (js ''k5'', JNumber 5)]"]
  show ?thesis
    unfolding fs scan by (simp add: filters_return_def matches_def)
qed


section \<open>Limit before sort\<close>

lemma search_sorted:
  "sort_opt options = Some cmp \<Longrightarrow>
     search E h db options =
       (case search_loop (allFilters E h options)
               (case limit options of None \<Rightarrow> Infinity | Some l \<Rightarrow> Finite l)
               (getRange db (rangeOpts options)) [] of
          Inl e \<Rightarrow> Inl e
        | Inr (results, unread) \<Rightarrow> Inr (array_sort E (\<lambda>a b. cmp (snd a) (snd b)) results))"
  by (simp add: search_def split: sum.splits)

lemma mset_pair_cases: "mset r = mset [a, b] \<Longrightarrow> r = [a, b] \<or> r = [b, a]"
proof -
  assume m: "mset r = mset [a, b]"
  then have "length r = 2"
    using mset_eq_length [of r "[a, b]"] by simp
  then obtain p q where r: "r = [p, q]"
    by (cases r; cases "tl r") auto
  with m show ?thesis
    by (auto simp: add_eq_conv_ex)
qed

lemma sorted_pair:
  "mset r = mset [a, b] \<Longrightarrow> sorted_wrt R r \<Longrightarrow> \<not> R a b \<Longrightarrow> r = [b, a]"
  using mset_pair_cases [of r a b] by auto

text \<open>
  Claim C4. With a positive limit \<open>n\<close> and a comparator, \<open>search\<close> first collects the first
  \<open>n\<close> matching entries of the range in key order, leaving the rest of the range unread
  (the filters are not called behind the \<open>n\<close>-th match), and only then sorts that list:
  the result is a permutation of those \<open>n\<close> entries, in comparator order when the
  comparator is consistent on them. It does not take the \<open>n\<close> smallest of the range. For
  \<open>k1{v:5}, k2{v:1}, k3{v:9}, k4{v:2}\<close>, limit 2 and the comparator \<open>a.v - b.v\<close> the result
  is \<open>[k2, k1]\<close>, not \<open>[k2, k4]\<close>.
\<close>

theorem search_limit_before_sort:
  "(0 < n \<and> limit options = Some n \<and> sort_opt options = Some cmp \<longrightarrow>
      (getRange db (rangeOpts options) = seen @ x # unread \<and>
       filters_return (allFilters E h options) (seen @ [x]) \<and>
       matches (allFilters E h options) x \<and>
       length (filter (matches (allFilters E h options)) seen) + 1 = nat n \<longrightarrow>
         search_loop (allFilters E h options) (Finite n) (seen @ x # unread) [] =
           Inr (filter (matches (allFilters E h options)) seen @ [x], unread) \<and>
         search E h db options =
           Inr (array_sort E (\<lambda>a b. cmp (snd a) (snd b))
             (take (nat n) (filter (matches (allFilters E h options))
               (getRange db (rangeOpts options)))))) \<and>
      (filters_return (allFilters E h options) (getRange db (rangeOpts options)) \<longrightarrow>
         search E h db options =
           Inr (array_sort E (\<lambda>a b. cmp (snd a) (snd b))
             (take (nat n) (filter (matches (allFilters E h options))
               (getRange db (rangeOpts options))))))) \<and>
   (sort_conforms E \<longrightarrow>
      mset (array_sort E (\<lambda>a b. cmp (snd a) (snd b)) first) = mset first \<and>
      (consistent_on (\<lambda>a b. cmp (snd a) (snd b)) first \<longrightarrow>
         sorted_wrt (\<lambda>a b. cmp (snd a) (snd b) \<le> 0)
           (array_sort E (\<lambda>a b. cmp (snd a) (snd b)) first))) \<and>
   (sort_conforms E \<longrightarrow>
      search E [[(js ''v'', JNumber 5)], [(js ''v'', JNumber 1)], [(js ''v'', JNumber 9)],
          [(js ''v'', JNumber 2)]]
        (collection [(js ''k1'', JObject 0), (js ''k2'', JObject 1), (js ''k3'', JObject 2),
          (js ''k4'', JObject 3)])
        (no_options\<lparr>limit := Some 2, sort_opt := Some (\<lambda>a b.
          number_of [[(js ''v'', JNumber 5)], [(js ''v'', JNumber 1)], [(js ''v'', JNumber 9)],
            [(js ''v'', JNumber 2)]] (js ''v'') a -
          number_of [[(js ''v'', JNumber 5)], [(js ''v'', JNumber 1)], [(js ''v'', JNumber 9)],
            [(js ''v'', JNumber 2)]] (js ''v'') b)\<rparr>) =
      Inr [(js ''k2'', JObject 1), (js ''k1'', JObject 0)])"
proof (intro conjI impI)
  let ?fs = "allFilters E h options"
  let ?cmp = "\<lambda>a b :: entry. cmp (snd a) (snd b)"
  assume o: "0 < n \<and> limit options = Some n \<and> sort_opt options = Some cmp"
  assume a: "getRange db (rangeOpts options) = seen @ x # unread \<and>
    filters_return ?fs (seen @ [x]) \<and> matches ?fs x \<and>
    length (filter (matches ?fs) seen) + 1 = nat n"
  then have "int (length ([] :: entry list) + length (filter (matches ?fs) seen)) + 1 = n"
    using o by auto
  with a have loop: "search_loop ?fs (Finite n) (seen @ x # unread) [] =
      Inr ([] @ filter (matches ?fs) seen @ [x], unread)"
    by (intro search_loop_break) simp_all
  then show "search_loop ?fs (Finite n) (seen @ x # unread) [] =
      Inr (filter (matches ?fs) seen @ [x], unread)"
    by simp
  from a have "nat n - length (filter (matches ?fs) seen) = Suc 0"
    by linarith
  with a have "take (nat n) (filter (matches ?fs) (seen @ x # unread)) =
      filter (matches ?fs) seen @ [x]"
    by simp
  with loop a o show "search E h db options =
      Inr (array_sort E ?cmp (take (nat n) (filter (matches ?fs)
        (getRange db (rangeOpts options)))))"
    by (simp add: search_sorted)
next
  let ?fs = "allFilters E h options"
  let ?cmp = "\<lambda>a b :: entry. cmp (snd a) (snd b)"
  assume o: "0 < n \<and> limit options = Some n \<and> sort_opt options = Some cmp"
  then have q: "quota n 0 = nat n"
    by (auto simp: quota_def max_def)
  assume "filters_return ?fs (getRange db (rangeOpts options))"
  from search_returns [OF this] o q
  show "search E h db options =
      Inr (array_sort E ?cmp (take (nat n) (filter (matches ?fs)
        (getRange db (rangeOpts options)))))"
    by (simp add: apply_sort_def apply_limit_def)
next
  assume "sort_conforms E"
  then show "mset (array_sort E (\<lambda>a b. cmp (snd a) (snd b)) first) = mset first"
    by (rule sort_conforms_mset)
next
  assume "sort_conforms E" and "consistent_on (\<lambda>a b. cmp (snd a) (snd b)) first"
  then show "sorted_wrt (\<lambda>a b. cmp (snd a) (snd b) \<le> 0)
      (array_sort E (\<lambda>a b. cmp (snd a) (snd b)) first)"
    by (rule sort_conforms_sorted)
next
  let ?h = "[[(js ''v'', JNumber 5)], [(js ''v'', JNumber 1)], [(js ''v'', JNumber 9)],
       [(js ''v'', JNumber 2)]]"
  let ?c = "[(js ''k1'', JObject 0), (js ''k2'', JObject 1), (js ''k3'', JObject 2),
        (js ''k4'', JObject 3)]"
  let ?cmp = "\<lambda>a b. number_of ?h (js ''v'') a - number_of ?h (js ''v'') b"
  let ?ecmp = "\<lambda>a b :: entry. ?cmp (snd a) (snd b)"
  let ?o = "no_options\<lparr>limit := Some 2, sort_opt := Some ?cmp\<rparr> :: unit SearchOptions"
  let ?two = "[(js ''k1'', JObject 0), (js ''k2'', JObject 1)]"
  assume E: "sort_conforms E"
  have run: "search E ?h (collection ?c) ?o = Inr (array_sort E ?ecmp ?two)"
    by (simp add: search_defs js_def)
  have "consistent_on ?ecmp ?two"
    by (simp add: consistent_on_def consistent_triple_def number_of_def obj_get_def js_def)
  with E have "sorted_wrt (\<lambda>a b. ?ecmp a b \<le> 0) (array_sort E ?ecmp ?two)"
    by (rule sort_conforms_sorted)
  moreover have "mset (array_sort E ?ecmp ?two) = mset ?two"
    using E by (rule sort_conforms_mset)
  moreover have "\<not> ?ecmp (js ''k1'', JObject 0) (js ''k2'', JObject 1) \<le> 0"
    by (simp add: number_of_def obj_get_def js_def)
  ultimately have "array_sort E ?ecmp ?two = [(js ''k2'', JObject 1), (js ''k1'', JObject 0)]"
    by (intro sorted_pair) 
  with run show "search E ?h (collection ?c) ?o =
      Inr [(js ''k2'', JObject 1), (js ''k1'', JObject 0)]"
    by simp
qed

theorem search_limit_before_sort_witness:
  "search reference_engine [[(js ''v'', JNumber 5)], [(js ''v'', JNumber 1)],
       [(js ''v'', JNumber 9)], [(js ''v'', JNumber 2)]]
     (collection [(js ''k1'', JObject 0), (js ''k2'', JObject 1), (js ''k3'', JObject 2),
        (js ''k4'', JObject 3)])
     (no_options\<lparr>limit := Some 2, sort_opt := Some (\<lambda>a b.
        number_of [[(js ''v'', JNumber 5)], [(js ''v'', JNumber 1)], [(js ''v'', JNumber 9)],
          [(js ''v'', JNumber 2)]] (js ''v'') a -
        number_of [[(js ''v'', JNumber 5)], [(js ''v'', JNumber 1)], [(js ''v'', JNumber 9)],
          [(js ''v'', JNumber 2)]] (js ''v'') b)\<rparr>) =
     Inr [(js ''k2'', JObject 1), (js ''k1'', JObject 0)] \<and>
   search reference_engine [[(js ''v'', JNumber 5)], [(js ''v'', JNumber 1)],
       [(js ''v'', JNumber 9)], [(js ''v'', JNumber 2)]]
     (collection [(js ''k1'', JObject 0), (js ''k2'', JObject 1), (js ''k3'', JObject 2),
        (js ''k4'', JObject 3)])
     (no_options\<lparr>limit := Some 2, sort_opt := Some (\<lambda>a b.
        number_of [[(js ''v'', JNumber 5)], [(js ''v'', JNumber 1)], [(js ''v'', JNumber 9)],
          [(js ''v'', JNumber 2)]] (js ''v'') a -
        number_of [[(js ''v'', JNumber 5)], [(js ''v'', JNumber 1)], [(js ''v'', JNumber 9)],
          [(js ''v'', JNumber 2)]] (js ''v'') b)\<rparr>) \<noteq>
     Inr [(js ''k2'', JObject 1), (js ''k4'', JObject 3)] \<and>
   search_loop [] (Finite 2)
     ([(js ''k1'', JObject 0)] @ (js ''k2'', JObject 1) #
      [(js ''k3'', JObject 2), (js ''k4'', JObject 3)]) [] =
     Inr ([(js ''k1'', JObject 0), (js ''k2'', JObject 1)],
          [(js ''k3'', JObject 2), (js ''k4'', JObject 3)])"
proof -
  let ?h = "[[(js ''v'', JNumber 5)], [(js ''v'', JNumber 1)], [(js ''v'', JNumber 9)],
       [(js ''v'', JNumber 2)]]"
  let ?c = "[(js ''k1'', JObject 0), (js ''k2'', JObject 1), (js ''k3'', JObject 2),
        (js ''k4'', JObject 3)]"
  let ?cmp = "\<lambda>a b. number_of ?h (js ''v'') a - number_of ?h (js ''v'') b"
  let ?o = "no_options\<lparr>limit := Some 2, sort_opt := Some ?cmp\<rparr> :: unit SearchOptions"
  have o: "(0::int) < 2 \<and> limit ?o = Some 2 \<and> sort_opt ?o = Some ?cmp"
    by (simp add: no_options_def)
  have fs: "allFilters reference_engine ?h ?o = []"
    by (simp add: allFilters_def searchText_def no_options_def)
  have scan: "getRange (collection ?c) (rangeOpts ?o) = ?c"
    by (rule getRange_unbounded) (simp add: no_options_def)
  note inst = search_limit_before_sort [where E = reference_engine and h = ?h
      and db = "collection ?c" and options = ?o and n = 2 and cmp = ?cmp
      and seen = "[(js ''k1'', JObject 0)]" and x = "(js ''k2'', JObject 1)"
      and unread = "[(js ''k3'', JObject 2), (js ''k4'', JObject 3)]"]
  from inst reference_engine_sort
  have ex: "search reference_engine ?h (collection ?c) ?o =
      Inr [(js ''k2'', JObject 1), (js ''k1'', JObject 0)]"
    by blast
  from inst o have "getRange (collection ?c) (rangeOpts ?o) =
      [(js ''k1'', JObject 0)] @ (js ''k2'', JObject 1) #
        [(js ''k3'', JObject 2), (js ''k4'', JObject 3)] \<and>
      filters_return (allFilters reference_engine ?h ?o)
        ([(js ''k1'', JObject 0)] @ [(js ''k2'', JObject 1)]) \<and>
      matches (allFilters reference_engine ?h ?o) (js ''k2'', JObject 1) \<and>
      length (filter (matches (allFilters reference_engine ?h ?o)) [(js ''k1'', JObject 0)]) + 1 =
        nat 2 \<longrightarrow>
      search_loop (allFilters reference_engine ?h ?o) (Finite 2)
        ([(js ''k1'', JObject 0)] @ (js ''k2'', JObject 1) #
          [(js ''k3'', JObject 2), (js ''k4'', JObject 3)]) [] =
      Inr (filter (matches (allFilters reference_engine ?h ?o)) [(js ''k1'', JObject 0)] @
          [(js ''k2'', JObject 1)],
        [(js ''k3'', JObject 2), (js ''k4'', JObject 3)])"
    by blast
  then have loop: "search_loop [] (Finite 2)
     ([(js ''k1'', JObject 0)] @ (js ''k2'', JObject 1) #
      [(js ''k3'', JObject 2), (js ''k4'', JObject 3)]) [] =
     Inr ([(js ''k1'', JObject 0), (js ''k2'', JObject 1)],
          [(js ''k3'', JObject 2), (js ''k4'', JObject 3)])"
    unfolding fs scan by (simp add: filters_return_def matches_def)
  from ex loop show ?thesis
    by (simp add: js_def)
qed

section \<open>The search term\<close>

lemma search_cong:
  "limit o1 = limit o2 \<Longrightarrow> sort_opt o1 = sort_opt o2 \<Longrightarrow> rangeOpts o1 = rangeOpts o2 \<Longrightarrow>
   allFilters E h o1 = allFilters E h o2 \<Longrightarrow> search E h db o1 = search E h db o2"
  by (simp add: search_def split: sum.splits prod.splits)

lemma allFilters_cong:
  "filters o1 = filters o2 \<Longrightarrow> searchText E o1 = searchText E o2 \<Longrightarrow>
     allFilters E h o1 = allFilters E h o2"
  by (simp add: allFilters_def)

lemma deepSearch_precedence_fails:
  "lowers_ascii E \<Longrightarrow>
   search E [[(js ''name'', JString (js ''Book''))]] (collection [(js ''i:1'', JObject 0)])
     (no_options\<lparr>deepSearch := Some (js ''''), query := Some (js ''pen'')\<rparr>) \<noteq>
   search E [[(js ''name'', JString (js ''Book''))]] (collection [(js ''i:1'', JObject 0)])
     (no_options\<lparr>deepSearch := Some (js '''')\<rparr>)"
  by (simp add: search_defs ascii_defs)

text \<open>
  Claim C6. A limit of zero or below raises no error and ends the loop at once, so the
  result is empty. The code does not do this: the test \<open>results.length >= limit\<close> comes
  after the push, so the first matching entry is in the result before the loop ends. The
  theorem evaluates \<open>search\<close> on a collection of two entries with the limits 0 and -3.
\<close>

theorem search_nonpositive_limit_returns_first_match:
  "search E [] (collection [(js ''k1'', JNumber 1), (js ''k2'', JNumber 2)])
     (no_options\<lparr>limit := Some 0\<rparr>) = Inr [(js ''k1'', JNumber 1)] \<and>
   search E [] (collection [(js ''k1'', JNumber 1), (js ''k2'', JNumber 2)])
     (no_options\<lparr>limit := Some (- 3)\<rparr>) = Inr [(js ''k1'', JNumber 1)]"
  by (simp add: search_defs js_def)

text \<open>
  Claim C7, as stated: whenever \<open>deepSearch\<close> and \<open>query\<close> are both supplied with different
  terms, the result is that of \<open>deepSearch\<close>'s term alone. It fails for the empty
  \<open>deepSearch\<close>: with \<open>query = "pen"\<close> the record \<open>{name: "Book"}\<close> is filtered out, and with
  the empty \<open>deepSearch\<close> alone it is returned.
\<close>

theorem deepSearch_precedence_counterexample:
  "search reference_engine [[(js ''name'', JString (js ''Book''))]]
     (collection [(js ''i:1'', JObject 0)])
     (no_options\<lparr>deepSearch := Some (js ''''), query := Some (js ''pen'')\<rparr>) \<noteq>
   search reference_engine [[(js ''name'', JString (js ''Book''))]]
     (collection [(js ''i:1'', JObject 0)])
     (no_options\<lparr>deepSearch := Some (js '''')\<rparr>)"
  using reference_engine_lower by (rule deepSearch_precedence_fails)

text \<open>
  Claim C7, amended. Whatever the other options are, \<open>search\<close> with \<open>query = x\<close> alone
  returns what it returns with \<open>deepSearch = x\<close> alone; when both are supplied and
  \<open>deepSearch\<close> is not the empty string, the result is that of \<open>deepSearch\<close>'s term alone;
  and when \<open>deepSearch\<close> is the empty string it counts as absent, so the result is that
  of the query's term alone. (For the empty \<open>x\<close> the first part uses that the engine
  lower-cases the empty string to itself.)
\<close>

theorem query_alias_deepSearch_precedence:
  "(x \<noteq> [] \<or> toLowerCase E [] = [] \<longrightarrow>
      search E h db (options\<lparr>deepSearch := None, query := Some x\<rparr>) =
        search E h db (options\<lparr>deepSearch := Some x, query := None\<rparr>)) \<and>
   (d \<noteq> [] \<longrightarrow>
      search E h db (options\<lparr>deepSearch := Some d, query := Some x\<rparr>) =
        search E h db (options\<lparr>deepSearch := Some d, query := None\<rparr>)) \<and>
   search E h db (options\<lparr>deepSearch := Some [], query := Some x\<rparr>) =
     search E h db (options\<lparr>deepSearch := None, query := Some x\<rparr>)"
proof (intro conjI impI)
  assume "x \<noteq> [] \<or> toLowerCase E [] = []"
  then show "search E h db (options\<lparr>deepSearch := None, query := Some x\<rparr>) =
      search E h db (options\<lparr>deepSearch := Some x, query := None\<rparr>)"
    by (intro search_cong)
      (auto simp: allFilters_def searchText_def rangeOpts_def range_start_def range_end_def)
next
  assume "d \<noteq> []"
  then show "search E h db (options\<lparr>deepSearch := Some d, query := Some x\<rparr>) =
      search E h db (options\<lparr>deepSearch := Some d, query := None\<rparr>)"
    by (intro search_cong allFilters_cong)
      (simp_all add: searchText_def rangeOpts_def range_start_def range_end_def)
next
  show "search E h db (options\<lparr>deepSearch := Some [], query := Some x\<rparr>) =
      search E h db (options\<lparr>deepSearch := None, query := Some x\<rparr>)"
    by (intro search_cong allFilters_cong)
      (simp_all add: searchText_def rangeOpts_def range_start_def range_end_def)
qed

theorem query_alias_deepSearch_precedence_witness:
  "search reference_engine
     [[(js ''name'', JString (js ''Pen''))], [(js ''name'', JString (js ''Book''))]]
     (collection [(js ''i:1'', JObject 0), (js ''i:2'', JObject 1)])
     (no_options\<lparr>deepSearch := Some (js ''pen''), query := Some (js ''book'')\<rparr>) =
   Inr [(js ''i:1'', JObject 0)] \<and>
   search reference_engine
     [[(js ''name'', JString (js ''Pen''))], [(js ''name'', JString (js ''Book''))]]
     (collection [(js ''i:1'', JObject 0), (js ''i:2'', JObject 1)])
     (no_options\<lparr>deepSearch := None, query := Some (js ''book'')\<rparr>) =
   Inr [(js ''i:2'', JObject 1)] \<and>
   search reference_engine
     [[(js ''name'', JString (js ''Pen''))], [(js ''name'', JString (js ''Book''))]]
     (collection [(js ''i:1'', JObject 0), (js ''i:2'', JObject 1)])
     (no_options\<lparr>deepSearch := Some [], query := Some (js ''book'')\<rparr>) =
   Inr [(js ''i:2'', JObject 1)]"
proof -
  let ?h = "[[(js ''name'', JString (js ''Pen''))], [(js ''name'', JString (js ''Book''))]]"
  let ?c = "[(js ''i:1'', JObject 0), (js ''i:2'', JObject 1)]"
  have ne: "js ''pen'' \<noteq> []" "js ''book'' \<noteq> []"
    by (simp_all add: js_def)
  have one: "search reference_engine ?h (collection ?c)
      ((no_options :: unit SearchOptions)\<lparr>deepSearch := Some (js ''pen''), query := None\<rparr>) =
      Inr [(js ''i:1'', JObject 0)]"
    by (simp add: search_defs example_defs)
  have two: "search reference_engine ?h (collection ?c)
      ((no_options :: unit SearchOptions)\<lparr>deepSearch := Some (js ''book''), query := None\<rparr>) =
      Inr [(js ''i:2'', JObject 1)]"
    by (simp add: search_defs example_defs)
  from query_alias_deepSearch_precedence [where E = reference_engine and h = ?h
      and db = "collection ?c" and options = no_options and x = "js ''book''"
      and d = "js ''pen''"]
    ne one two
  show ?thesis by simp
qed

text \<open>
  Claim C10. An empty \<open>deepSearch\<close> (or \<open>query\<close>) is as good as an absent one: no
  predicate is appended, whatever the other options are, so \<open>search\<close> with
  \<open>deepSearch = ""\<close> returns what it returns without it, and with a \<open>query\<close> beside the empty
  \<open>deepSearch\<close> the search text is the query's. A record with no string field passes,
  although the deep-search predicate with the empty term is false of it. (For the empty
  \<open>query\<close> the engine's \<open>toLowerCase\<close> is called on the empty string; it returns the empty
  string.)
\<close>

theorem empty_deepSearch_is_absent:
  "search E h db (options\<lparr>deepSearch := Some []\<rparr>) = search E h db (options\<lparr>deepSearch := None\<rparr>) \<and>
   (toLowerCase E [] = [] \<longrightarrow>
      search E h db (options\<lparr>query := Some []\<rparr>) = search E h db (options\<lparr>query := None\<rparr>)) \<and>
   allFilters E h (options\<lparr>deepSearch := Some [], query := None\<rparr>) =
     (case filters options of None \<Rightarrow> [] | Some fs \<Rightarrow> fs) \<and>
   search E h db (no_options\<lparr>deepSearch := Some []\<rparr>) = search E h db no_options \<and>
   searchText E (options\<lparr>deepSearch := Some [], query := Some x\<rparr>) = Some (toLowerCase E x) \<and>
   search E h db (options\<lparr>deepSearch := Some [], query := Some x\<rparr>) =
     search E h db (options\<lparr>deepSearch := None, query := Some x\<rparr>) \<and>
   \<not> deepSearchPred E [[(js ''price'', JNumber 5)]] (JObject 0) [] \<and>
   search E [[(js ''price'', JNumber 5)]] (collection [(js ''p1'', JObject 0)])
     (no_options\<lparr>deepSearch := Some []\<rparr>) = Inr [(js ''p1'', JObject 0)]"
proof (intro conjI impI)
  show "search E h db (options\<lparr>deepSearch := Some []\<rparr>) = search E h db (options\<lparr>deepSearch := None\<rparr>)"
    by (intro search_cong allFilters_cong)
      (simp_all add: searchText_def rangeOpts_def range_start_def range_end_def)
  show "search E h db (options\<lparr>query := Some []\<rparr>) = search E h db (options\<lparr>query := None\<rparr>)"
    if "toLowerCase E [] = []"
  proof (intro search_cong)
    show "allFilters E h (options\<lparr>query := Some []\<rparr>) = allFilters E h (options\<lparr>query := None\<rparr>)"
      using that by (cases "deepSearch options") (auto simp: allFilters_def searchText_def)
  qed (simp_all add: rangeOpts_def range_start_def range_end_def)
  show "search E h db (no_options\<lparr>deepSearch := Some []\<rparr>) = search E h db no_options"
    by (intro search_cong allFilters_cong)
      (simp_all add: searchText_def rangeOpts_def range_start_def range_end_def no_options_def)
  show "search E h db (options\<lparr>deepSearch := Some [], query := Some x\<rparr>) =
      search E h db (options\<lparr>deepSearch := None, query := Some x\<rparr>)"
    by (intro search_cong allFilters_cong)
      (simp_all add: searchText_def rangeOpts_def range_start_def range_end_def)
qed (simp_all add: allFilters_def searchText_def search_defs deepSearchPred_def js_def
    for_in_keys_def obj_get_def)

theorem empty_deepSearch_is_absent_witness:
  "toLowerCase reference_engine [] = [] \<and>
   search reference_engine [[(js ''price'', JNumber 5)]] (collection [(js ''p1'', JObject 0)])
     (no_options\<lparr>query := Some []\<rparr>) = Inr [(js ''p1'', JObject 0)]"
proof -
  have l: "toLowerCase reference_engine [] = []"
    by (simp add: reference_engine_def ascii_lower_def)
  have "search reference_engine [[(js ''price'', JNumber 5)]] (collection [(js ''p1'', JObject 0)])
     ((no_options :: unit SearchOptions)\<lparr>query := None\<rparr>) = Inr [(js ''p1'', JObject 0)]"
    by (simp add: search_defs js_def)
  with l empty_deepSearch_is_absent [where E = reference_engine
      and h = "[[(js ''price'', JNumber 5)]]" and db = "collection [(js ''p1'', JObject 0)]"
      and options = no_options]
  show ?thesis by simp
qed

section \<open>Shape of the result\<close>

lemma search_loop_subseq:
  "search_loop fs lim xs acc = Inr (res, unread) \<Longrightarrow> \<exists>ys. res = acc @ ys \<and> subseq ys xs"
proof (induction xs arbitrary: acc)
  case Nil
  then show ?case by simp
next
  case (Cons x xs)
  obtain k v where x: "x = (k, v)" by (cases x)
  from Cons.prems obtain b where b: "every fs v k = Inr b"
    by (auto simp: x search_loop_Cons simp del: search_loop.simps split: sum.splits)
  show ?case
  proof (cases b)
    case False
    with Cons.prems b have "search_loop fs lim xs acc = Inr (res, unread)"
      by (simp add: x search_loop_Cons del: search_loop.simps)
    from Cons.IH [OF this] show ?thesis by auto
  next
    case True
    show ?thesis
    proof (cases "length_ge (Suc (length acc)) lim")
      case stop: True
      with Cons.prems b True have "res = acc @ [x]"
        by (simp add: x search_loop_Cons del: search_loop.simps)
      then show ?thesis by auto
    next
      case go: False
      with Cons.prems b True have "search_loop fs lim xs (acc @ [x]) = Inr (res, unread)"
        by (simp add: x search_loop_Cons del: search_loop.simps)
      from Cons.IH [OF this] obtain ys where "res = acc @ x # ys" "subseq ys xs"
        by auto
      then show ?thesis by auto
    qed
  qed
qed

lemma subseq_sorted_wrt: "subseq xs ys \<Longrightarrow> sorted_wrt P ys \<Longrightarrow> sorted_wrt P xs"
proof (induction rule: list_emb.induct)
  case (list_emb_Cons2 x y xs ys)
  then show ?case
    using list_emb_set [of "(=)" xs ys] by auto
qed auto

lemma search_Inr_cases:
  assumes "search E h db options = Inr res"
  obtains acc unread where
    "search_loop (allFilters E h options)
       (case limit options of None \<Rightarrow> Infinity | Some l \<Rightarrow> Finite l)
       (getRange db (rangeOpts options)) [] = Inr (acc, unread)"
    and "res = apply_sort E (sort_opt options) acc"
  using assms by (auto simp: search_def apply_sort_def split: sum.splits prod.splits)


lemma collection_range_sorted:
  "collection_ok coll \<Longrightarrow> sorted_wrt (<) (map fst (getRange (collection coll) ro))"
proof -
  assume "collection_ok coll"
  then have "sorted_wrt (<) (map fst coll)"
    by (simp add: collection_ok_def)
  moreover have "subseq (map fst (getRange (collection coll) ro)) (map fst coll)"
    unfolding getRange_collection by (intro subseq_map subseq_filter_left)
  ultimately show ?thesis
    by (rule subseq_sorted_wrt [rotated])
qed

lemma subseq_distinct: "subseq xs ys \<Longrightarrow> distinct ys \<Longrightarrow> distinct xs"
proof (induction rule: list_emb.induct)
  case (list_emb_Cons2 x y xs ys)
  then show ?case
    using list_emb_set [of "(=)" xs ys] by auto
qed auto

lemma collection_range_stored:
  assumes "collection_ok coll" and "(k, v) \<in> set (getRange (collection coll) ro)"
  shows "map_of coll k = Some v"
proof -
  have "distinct (map fst coll)"
    using assms(1) by (simp add: collection_ok_def strict_sorted_iff)
  moreover have "(k, v) \<in> set coll"
    using assms(2) by (auto simp: getRange_collection)
  ultimately show ?thesis
    by (simp add: map_of_eq_Some_iff)
qed

text \<open>
  Claim C9. A result of \<open>search\<close> is made of the pairs accumulated from the range
  iteration: without a comparator it is a subsequence of the range, so it holds only
  pairs that the iteration yielded, no key twice when the iteration yields none twice,
  and it is in ascending key order when the iteration is. With a comparator the engine's
  sort is applied to the accumulated pairs; a conforming sort only permutes them, so the
  same pairs are in the result, and for a comparator that is consistent on them the
  result is in comparator order. In the modelled store every range of a collection is in
  ascending key order and holds each key with the value stored for it.
\<close>

theorem search_result_invariant:
  assumes "search E h db options = Inr res"
  shows "(\<exists>acc. search E h db (options\<lparr>sort_opt := None\<rparr>) = Inr acc \<and>
        subseq acc (getRange db (rangeOpts options)) \<and>
        (sort_opt options = None \<or> sort_conforms E \<longrightarrow> mset res = mset acc)) \<and>
     (sort_opt options = None \<or> sort_conforms E \<longrightarrow>
        set res \<subseteq> set (getRange db (rangeOpts options)) \<and>
        (distinct (map fst (getRange db (rangeOpts options))) \<longrightarrow> distinct (map fst res))) \<and>
     (sort_opt options = None \<longrightarrow>
        subseq res (getRange db (rangeOpts options)) \<and>
        (sorted_wrt (<) (map fst (getRange db (rangeOpts options))) \<longrightarrow>
           sorted_wrt (<) (map fst res))) \<and>
     (\<forall>cmp. sort_conforms E \<and> sort_opt options = Some cmp \<and>
          consistent_on (\<lambda>a b. cmp (snd a) (snd b)) res \<longrightarrow>
        sorted_wrt (\<lambda>a b. cmp (snd a) (snd b) \<le> 0) res) \<and>
     (collection_ok coll \<longrightarrow>
        sorted_wrt (<) (map fst (getRange (collection coll) ro)) \<and>
        distinct (map fst (getRange (collection coll) ro)) \<and>
        (\<forall>(k, v) \<in> set (getRange (collection coll) ro). map_of coll k = Some v))"
proof -
  let ?xs = "getRange db (rangeOpts options)"
  let ?lim = "case limit options of None \<Rightarrow> Infinity | Some l \<Rightarrow> Finite l"
  from assms obtain acc unread where
    loop: "search_loop (allFilters E h options) ?lim ?xs [] = Inr (acc, unread)"
    and res: "res = apply_sort E (sort_opt options) acc"
    by (rule search_Inr_cases)
  from search_loop_subseq [OF loop] have sub: "subseq acc ?xs"
    by simp
  have perm: "mset res = mset acc" if "sort_opt options = None \<or> sort_conforms E"
    using that unfolding res
    by (auto simp: apply_sort_def sort_conforms_mset split: option.splits)
  have unsorted: "search E h db (options\<lparr>sort_opt := None\<rparr>) = Inr acc"
  proof -
    have "searchText E (options\<lparr>sort_opt := None\<rparr>) = searchText E options"
      by (simp add: searchText_def split: option.splits)
    then have "allFilters E h (options\<lparr>sort_opt := None\<rparr>) = allFilters E h options"
      by (intro allFilters_cong) simp_all
    moreover have "rangeOpts (options\<lparr>sort_opt := None\<rparr>) = rangeOpts options"
      by (simp add: rangeOpts_def range_start_def range_end_def)
    ultimately show ?thesis
      using loop by (simp add: search_unsorted)
  qed
  have yielded: "set res \<subseteq> set ?xs" if "sort_opt options = None \<or> sort_conforms E"
    using mset_eq_setD [OF perm [OF that]] list_emb_set [of "(=)" acc ?xs] sub by auto
  have dist: "distinct (map fst res)"
    if "sort_opt options = None \<or> sort_conforms E" and d: "distinct (map fst ?xs)"
  proof -
    have "subseq (map fst acc) (map fst ?xs)"
      using sub by (rule subseq_map)
    with d have "distinct (map fst acc)"
      by (rule subseq_distinct [rotated])
    moreover have "mset (map fst res) = mset (map fst acc)"
      using perm [OF that(1)] by (metis mset_map)
    ultimately show ?thesis
      by (metis mset_eq_imp_distinct_iff)
  qed
  have plain: "subseq res ?xs \<and>
      (sorted_wrt (<) (map fst ?xs) \<longrightarrow> sorted_wrt (<) (map fst res))"
    if "sort_opt options = None"
  proof -
    from that have "res = acc"
      by (simp add: res apply_sort_def)
    with sub subseq_sorted_wrt [OF subseq_map [OF sub, of fst], of "(<)"] show ?thesis
      by blast
  qed
  have ordered: "sorted_wrt (\<lambda>a b. cmp (snd a) (snd b) \<le> 0) res"
    if "sort_conforms E \<and> sort_opt options = Some cmp \<and>
      consistent_on (\<lambda>a b. cmp (snd a) (snd b)) res" for cmp
  proof -
    from that have r: "res = array_sort E (\<lambda>a b. cmp (snd a) (snd b)) acc"
      by (simp add: res apply_sort_def)
    from that perm have "consistent_on (\<lambda>a b. cmp (snd a) (snd b)) acc"
      using consistent_on_mset [of res acc] by simp
    with that show ?thesis
      unfolding r by (intro sort_conforms_sorted) simp_all
  qed
  have store: "sorted_wrt (<) (map fst (getRange (collection coll) ro)) \<and>
      distinct (map fst (getRange (collection coll) ro)) \<and>
      (\<forall>(k, v) \<in> set (getRange (collection coll) ro). map_of coll k = Some v)"
    if "collection_ok coll"
    using collection_range_sorted [OF that, of ro] collection_range_stored [OF that, of _ _ ro]
    by (auto simp: strict_sorted_iff)
  from unsorted sub perm yielded dist plain ordered store show ?thesis
    by blast
qed

theorem search_result_invariant_witness:
  "collection_ok [(js ''k1'', JObject 0), (js ''k2'', JObject 1)] \<and>
   search reference_engine [[(js ''v'', JNumber 5)], [(js ''v'', JNumber 1)]]
     (collection [(js ''k1'', JObject 0), (js ''k2'', JObject 1)])
     (no_options\<lparr>sort_opt := Some (\<lambda>a b.
        number_of [[(js ''v'', JNumber 5)], [(js ''v'', JNumber 1)]] (js ''v'') a -
        number_of [[(js ''v'', JNumber 5)], [(js ''v'', JNumber 1)]] (js ''v'') b)\<rparr>) =
     Inr [(js ''k2'', JObject 1), (js ''k1'', JObject 0)] \<and>
   distinct (map fst [(js ''k2'', JObject 1), (js ''k1'', JObject 0)]) \<and>
   sorted_wrt (\<lambda>a b.
        number_of [[(js ''v'', JNumber 5)], [(js ''v'', JNumber 1)]] (js ''v'') (snd a) -
        number_of [[(js ''v'', JNumber 5)], [(js ''v'', JNumber 1)]] (js ''v'') (snd b) \<le> 0)
     [(js ''k2'', JObject 1), (js ''k1'', JObject 0)] \<and>
   search reference_engine [[(js ''v'', JNumber 5)], [(js ''v'', JNumber 1)]]
     (collection [(js ''k1'', JObject 0), (js ''k2'', JObject 1)])
     (no_options\<lparr>sort_opt := None\<rparr>) =
     Inr [(js ''k1'', JObject 0), (js ''k2'', JObject 1)]"
proof -
  let ?h = "[[(js ''v'', JNumber 5)], [(js ''v'', JNumber 1)]]"
  let ?c = "[(js ''k1'', JObject 0), (js ''k2'', JObject 1)]"
  let ?cmp = "\<lambda>a b. number_of ?h (js ''v'') a - number_of ?h (js ''v'') b"
  let ?o = "no_options\<lparr>sort_opt := Some ?cmp\<rparr> :: unit SearchOptions"
  let ?r = "[(js ''k2'', JObject 1), (js ''k1'', JObject 0)]"
  have ok: "collection_ok ?c"
    by (simp add: collection_ok_def js_def)
  have run: "search reference_engine ?h (collection ?c) ?o = Inr ?r"
    by (simp add: search_defs reference_engine_def insertion_sort_def number_of_def obj_get_def
        js_def)
  have plain: "search reference_engine ?h (collection ?c) (no_options\<lparr>sort_opt := None\<rparr>) =
      Inr ?c"
    by (simp add: search_defs js_def)
  have sort: "sort_opt ?o = Some ?cmp"
    by (simp add: no_options_def)
  have cons: "consistent_on (\<lambda>a b. ?cmp (snd a) (snd b)) ?r"
    by (simp add: consistent_on_def consistent_triple_def number_of_def obj_get_def js_def)
  have scan: "getRange (collection ?c) (rangeOpts ?o) = ?c"
    by (rule getRange_unbounded) (simp add: no_options_def)
  note inv = search_result_invariant [OF run, where coll = ?c and ro = "rangeOpts ?o"]
  from inv ok reference_engine_sort
  have "distinct (map fst (getRange (collection ?c) (rangeOpts ?o))) \<longrightarrow> distinct (map fst ?r)"
    by blast
  moreover from inv ok have "distinct (map fst (getRange (collection ?c) (rangeOpts ?o)))"
    by blast
  ultimately have d: "distinct (map fst ?r)"
    by blast
  from inv sort cons reference_engine_sort
  have s: "sorted_wrt (\<lambda>a b. ?cmp (snd a) (snd b) \<le> 0) ?r"
    by blast
  from ok run plain d s show ?thesis
    by (intro conjI)
qed

end
